theory Spec2Isabelle
  imports Main "HOL-Library.Word"
begin

unbundle bit_operations_syntax

section \<open>Data model\<close>

text \<open>
  \<^verbatim>\<open>struct uint128_t { uint64_t hi; uint64_t lo; }\<close>: the canonical key of an address,
  two 64-bit halves.  \<^verbatim>\<open>operator<\<close> compares the high halves first, \<^verbatim>\<open>operator==\<close>
  compares both halves.
\<close>

record uint128_t =
  hi :: "64 word"
  lo :: "64 word"

definition uint128_less :: "uint128_t \<Rightarrow> uint128_t \<Rightarrow> bool" where
  "uint128_less a b = (if hi a \<noteq> hi b then hi a < hi b else lo a < lo b)"

definition uint128_eq :: "uint128_t \<Rightarrow> uint128_t \<Rightarrow> bool" where
  "uint128_eq a b = (hi a = hi b \<and> lo a = lo b)"

definition NUM_BUCKETS :: nat where
  "NUM_BUCKETS = 256"

definition WRITE_BUFFER_SIZE :: nat where
  "WRITE_BUFFER_SIZE = 1024 * 64"

section \<open>The address parser\<close>

text \<open>
  \<^verbatim>\<open>hexDigitToInt\<close>: the value of a hexadecimal digit, \<open>-1\<close> for any other character.
  Characters are compared by their codes.
\<close>

definition hexDigitToInt :: "char \<Rightarrow> int" where
  "hexDigitToInt c =
     (let n = (of_char c :: nat) in
      if 48 \<le> n \<and> n \<le> 57 then int n - 48
      else if 97 \<le> n \<and> n \<le> 102 then int n - 97 + 10
      else if 65 \<le> n \<and> n \<le> 70 then int n - 65 + 10
      else - 1)"

text \<open>
  \<^verbatim>\<open>isspace\<close> of the C locale: space, and the control characters from horizontal tab
  to carriage return.  No character beyond ASCII is white space.
\<close>

definition isspace :: "char \<Rightarrow> bool" where
  "isspace c = (let n = (of_char c :: nat) in n = 32 \<or> (9 \<le> n \<and> n \<le> 13))"

text \<open>
  The inner loop of \<^verbatim>\<open>parseIPv6\<close> that reads one group: \<^verbatim>\<open>val\<close> is a 32-bit
  accumulator, shifted left by four bits for every digit read, \<^verbatim>\<open>has_digits\<close> records
  that a digit was read.  The position \<^verbatim>\<open>i\<close> of the source is the part of the line that
  is still to be read.
\<close>

fun read_hex :: "32 word \<Rightarrow> bool \<Rightarrow> string \<Rightarrow> 32 word \<times> bool \<times> string" where
  "read_hex val has_digits [] = (val, has_digits, [])"
| "read_hex val has_digits (c # cs) =
     (let digit = hexDigitToInt c in
      if digit = - 1 then (val, has_digits, c # cs)
      else read_hex (push_bit 4 val OR word_of_int digit) True cs)"

lemma read_hex_length: "read_hex v h s = (v', h', s') \<Longrightarrow> length s' \<le> length s"
  by (induction v h s rule: read_hex.induct) (auto simp: Let_def split: if_splits)

text \<open>
  The state of the main loop of \<^verbatim>\<open>parseIPv6\<close>: the array \<^verbatim>\<open>parts\<close> of eight 16-bit
  groups, the number \<^verbatim>\<open>current_part\<close> of groups stored, and \<^verbatim>\<open>double_colon_index\<close>,
  which is \<open>-1\<close> until the marker \<^verbatim>\<open>::\<close> has been seen.
\<close>

record pstate =
  parts :: "16 word list"
  current_part :: nat
  double_colon_index :: int

text \<open>
  The main loop \<^verbatim>\<open>while (i < len && current_part < 8)\<close>.  \<open>None\<close> is
  \<^verbatim>\<open>return false\<close> inside the loop; \<open>Some\<close> is the state with which the loop is left,
  by its condition or by \<^verbatim>\<open>break\<close>.
\<close>

function parse_loop :: "string \<Rightarrow> pstate \<Rightarrow> pstate option" where
  "parse_loop s st =
     (if s \<noteq> [] \<and> current_part st < 8 then
        (case read_hex 0 False s of (val, has_digits, s1) \<Rightarrow>
           let st1 = (if has_digits
                      then st\<lparr>parts := (parts st)[current_part st := ucast val],
                              current_part := current_part st + 1\<rparr>
                      else st)
           in (case s1 of
                 [] \<Rightarrow> Some st1
               | c # s2 \<Rightarrow>
                   if isspace c then Some st1
                   else if c = CHR '':'' then
                     (case s2 of
                        [] \<Rightarrow> parse_loop s2 st1
                      | c2 # s3 \<Rightarrow>
                          if c2 = CHR '':'' then
                            (if double_colon_index st1 \<noteq> - 1 then None
                             else parse_loop s3
                                    (st1\<lparr>double_colon_index := int (current_part st1)\<rparr>))
                          else parse_loop s2 st1)
                   else None))
      else Some st)"
  by pat_completeness auto
termination
  by (relation "measure (\<lambda>(s, st). length s)")
     (auto dest!: read_hex_length [OF sym])

declare parse_loop.simps [simp del]

text \<open>
  The expansion of \<^verbatim>\<open>::\<close>: for \<open>k\<close> from \<open>0\<close> the group at
  \<^verbatim>\<open>parts_parsed - 1 - k\<close> is copied to slot \<^verbatim>\<open>7 - k\<close> and its old slot is set to zero.
\<close>

definition shift_part :: "nat \<Rightarrow> 16 word list \<Rightarrow> nat \<Rightarrow> 16 word list" where
  "shift_part parts_parsed ps k =
     (ps[7 - k := ps ! (parts_parsed - 1 - k)])[parts_parsed - 1 - k := 0]"

definition expand :: "16 word list \<Rightarrow> nat \<Rightarrow> nat \<Rightarrow> 16 word list" where
  "expand ps parts_parsed dci =
     (let parts_to_shift = parts_parsed - dci
      in foldl (shift_part parts_parsed) ps [0 ..< parts_to_shift])"

text \<open>Packing: four groups in each half, the most significant group first.\<close>

definition pack :: "16 word list \<Rightarrow> uint128_t" where
  "pack ps =
     \<lparr> hi = push_bit 48 (ucast (ps ! 0)) OR push_bit 32 (ucast (ps ! 1)) OR
            push_bit 16 (ucast (ps ! 2)) OR ucast (ps ! 3),
       lo = push_bit 48 (ucast (ps ! 4)) OR push_bit 32 (ucast (ps ! 5)) OR
            push_bit 16 (ucast (ps ! 6)) OR ucast (ps ! 7) \<rparr>"

text \<open>What \<^verbatim>\<open>parseIPv6\<close> does after the main loop.\<close>

definition finish :: "pstate option \<Rightarrow> uint128_t option" where
  "finish r =
     (case r of
        None \<Rightarrow> None
      | Some st \<Rightarrow>
          if double_colon_index st \<noteq> - 1
          then Some (pack (expand (parts st) (current_part st)
                                  (nat (double_colon_index st))))
          else if current_part st \<noteq> 8 then None
          else Some (pack (parts st)))"

text \<open>
  \<^verbatim>\<open>parseIPv6\<close>: \<open>None\<close> is \<^verbatim>\<open>return false\<close>, \<open>Some key\<close> is \<^verbatim>\<open>return true\<close> with
  \<^verbatim>\<open>result\<close> set to the key.
\<close>

definition parseIPv6 :: "string \<Rightarrow> uint128_t option" where
  "parseIPv6 line =
     (let st0 = \<lparr> parts = replicate 8 0, current_part = 0, double_colon_index = - 1 \<rparr>
      in case dropWhile isspace line of
           [] \<Rightarrow> None
         | c # s1 \<Rightarrow>
             if c = CHR '':'' then
               (case s1 of
                  [] \<Rightarrow> None
                | c1 # s2 \<Rightarrow>
                    if c1 = CHR '':'' then
                      (if s2 = [] \<or> isspace (hd s2) then Some \<lparr> hi = 0, lo = 0 \<rparr>
                       else finish (parse_loop s2 (st0\<lparr>double_colon_index := 0\<rparr>)))
                    else None)
             else finish (parse_loop (c # s1) st0))"

section \<open>The bucket writer\<close>

text \<open>
  \<^verbatim>\<open>getBucketFileName\<close> is one-to-one on bucket numbers, so a temporary file is
  identified by the number of its bucket.  A file holds the keys written to it, in the
  order they were written (sixteen bytes each in the source).

  \<^verbatim>\<open>class BucketWriter\<close>: \<^verbatim>\<open>streams\<close> is what has been written to each bucket's file
  since it was opened with truncation, \<^verbatim>\<open>buffers\<close> the keys of each bucket that wait in
  memory.  Both vectors have \<^verbatim>\<open>NUM_BUCKETS\<close> entries and are indexed by bucket numbers
  below \<^verbatim>\<open>NUM_BUCKETS\<close> only.
\<close>

record BucketWriter =
  streams :: "nat \<Rightarrow> uint128_t list"
  buffers :: "nat \<Rightarrow> uint128_t list"

text \<open>
  \<^verbatim>\<open>openAll\<close>: the files are opened in the order of their numbers; the first one that
  cannot be opened ends the process with \<^verbatim>\<open>exit(1)\<close>, which is \<open>Inl\<close> of its number.
  The argument tells which temporary files the file system lets the process create.
\<close>

definition openAll :: "(nat \<Rightarrow> bool) \<Rightarrow> nat + BucketWriter" where
  "openAll can_create =
     (case find (\<lambda>i. \<not> can_create i) [0 ..< NUM_BUCKETS] of
        Some i \<Rightarrow> Inl i
      | None \<Rightarrow> Inr \<lparr> streams = (\<lambda>i. []), buffers = (\<lambda>i. []) \<rparr>)"

definition flush :: "nat \<Rightarrow> BucketWriter \<Rightarrow> BucketWriter" where
  "flush bucket_idx w =
     (if buffers w bucket_idx = [] then w
      else w\<lparr> streams := (streams w)(bucket_idx := streams w bucket_idx @ buffers w bucket_idx),
              buffers := (buffers w)(bucket_idx := []) \<rparr>)"

definition add :: "8 word \<Rightarrow> uint128_t \<Rightarrow> BucketWriter \<Rightarrow> BucketWriter" where
  "add bucket_idx ip w =
     (let b = unat bucket_idx;
          w1 = w\<lparr> buffers := (buffers w)(b := buffers w b @ [ip]) \<rparr>
      in if length (buffers w1 b) \<ge> WRITE_BUFFER_SIZE then flush b w1 else w1)"

definition flushAllAndClose :: "BucketWriter \<Rightarrow> BucketWriter" where
  "flushAllAndClose w = foldl (\<lambda>w i. flush i w) w [0 ..< NUM_BUCKETS]"

section \<open>The first phase: reading and partitioning\<close>

text \<open>
  \<^verbatim>\<open>std::getline\<close> until it fails: the lines of the input, each ended by a newline or
  by the end of the file; after the last newline there is no further line.
\<close>

function getlines :: "string \<Rightarrow> string list" where
  "getlines s =
     (if s = [] then []
      else takeWhile (\<lambda>c. c \<noteq> CHR 0x0A) s #
           (case dropWhile (\<lambda>c. c \<noteq> CHR 0x0A) s of
              [] \<Rightarrow> []
            | c # rest \<Rightarrow> getlines rest))"
  by pat_completeness auto
termination
proof (relation "measure length")
  fix s :: string and c rest
  assume "dropWhile (\<lambda>c. c \<noteq> CHR 0x0A) s = c # rest"
  then have "length (c # rest) \<le> length s"
    by (metis length_dropWhile_le)
  then show "(rest, s) \<in> measure length"
    by simp
qed simp

declare getlines.simps [simp del]

text \<open>\<^verbatim>\<open>uint8_t bucketIdx = (ipVal.hi >> 56) & 0xFF\<close>.\<close>

definition bucketIdx :: "uint128_t \<Rightarrow> 8 word" where
  "bucketIdx ipVal = ucast (drop_bit 56 (hi ipVal) AND 0xFF)"

text \<open>
  \<^verbatim>\<open>if (line.back() == '\r') line.pop_back()\<close>: one carriage return at the end of the
  line is taken off.  \<^verbatim>\<open>main\<close> does this with lines that are not empty only.
\<close>

definition strip_cr :: "string \<Rightarrow> string" where
  "strip_cr line = (if last line = CHR 0x0D then butlast line else line)"

text \<open>
  The loop of \<^verbatim>\<open>main\<close> over the lines read.  The counter \<^verbatim>\<open>processedLines\<close> and the
  progress messages on the standard output are left out.
\<close>

fun ingest :: "string list \<Rightarrow> BucketWriter \<Rightarrow> BucketWriter" where
  "ingest [] w = w"
| "ingest (line # rest) w =
     (if line = [] then ingest rest w
      else (case parseIPv6 (strip_cr line) of
              Some ipVal \<Rightarrow> ingest rest (add (bucketIdx ipVal) ipVal w)
            | None \<Rightarrow> ingest rest w))"

section \<open>The second phase: counting the distinct keys of a bucket\<close>

text \<open>
  \<^verbatim>\<open>std::sort\<close> with \<^verbatim>\<open>operator<\<close>.  The order is total on keys and two keys that
  are equivalent under it are equal, so the sorted sequence is the same whatever the
  algorithm; it is written as an insertion sort.
\<close>

fun insert_key :: "uint128_t \<Rightarrow> uint128_t list \<Rightarrow> uint128_t list" where
  "insert_key x [] = [x]"
| "insert_key x (y # ys) = (if uint128_less y x then y # insert_key x ys else x # y # ys)"

definition std_sort :: "uint128_t list \<Rightarrow> uint128_t list" where
  "std_sort xs = foldr insert_key xs []"

text \<open>
  \<^verbatim>\<open>std::unique\<close> with \<^verbatim>\<open>operator==\<close>: of every run of equal neighbours the first is
  kept.  The result is the range up to the iterator that is returned.
\<close>

fun std_unique :: "uint128_t list \<Rightarrow> uint128_t list" where
  "std_unique [] = []"
| "std_unique [x] = [x]"
| "std_unique (x # y # ys) =
     (if uint128_eq x y then std_unique (x # ys) else x # std_unique (y # ys))"

text \<open>
  The state of the second phase: the temporary files (\<open>None\<close> for a file that is not
  there or cannot be opened), the global counter \<^verbatim>\<open>total_unique_count\<close>, and a log of
  the buckets whose file contents were read with \<^verbatim>\<open>infile.read\<close>.
\<close>

record reducer =
  files :: "nat \<Rightarrow> uint128_t list option"
  total_unique_count :: "64 word"
  contents_read :: "nat list"

definition processBucket :: "nat \<Rightarrow> reducer \<Rightarrow> reducer" where
  "processBucket bucket_idx st =
     (case files st bucket_idx of
        None \<Rightarrow> st
      | Some keys \<Rightarrow>
          if length keys = 0 then st\<lparr> files := (files st)(bucket_idx := None) \<rparr>
          else
            let ips = std_sort keys;
                unique_in_bucket = length (std_unique ips)
            in st\<lparr> contents_read := contents_read st @ [bucket_idx],
                    total_unique_count := total_unique_count st + word_of_nat unique_in_bucket,
                    files := (files st)(bucket_idx := None) \<rparr>)"

section \<open>The program\<close>

text \<open>
  What the process is given: the number of its arguments, its name \<^verbatim>\<open>argv[0]\<close>, the
  contents of the input file (\<open>None\<close> when it cannot be opened), which temporary files
  can be created, and whether the output file can be opened for writing.  Files that
  have been opened are taken to be written and read without error, and the temporary
  files to be touched by this process only.
\<close>

record environment =
  argc :: nat
  program_name :: string
  input_file :: "string option"
  can_create_temp :: "nat \<Rightarrow> bool"
  can_write_output :: bool

text \<open>
  What the process leaves: its exit status, the lines written to the standard error
  stream, and the contents of the output file (\<open>None\<close> when it was not written).
\<close>

record outcome =
  exit_status :: int
  diagnostics :: "string list"
  output_file :: "string option"

text \<open>The decimal digits of a number, as \<^verbatim>\<open>operator<<\<close> writes them.\<close>

function decimal :: "nat \<Rightarrow> string" where
  "decimal n =
     (if n < 10 then [char_of (48 + n)]
      else decimal (n div 10) @ [char_of (48 + n mod 10)])"
  by pat_completeness auto
termination
  by (relation "measure id") auto

declare decimal.simps [simp del]

text \<open>
  The second phase, with the buckets processed one after the other in the order of
  their numbers.  The threads of the source are the subject of the section on the worker
  pool below, where every schedule is shown to leave the same count.
\<close>

definition reduce_all :: "reducer \<Rightarrow> reducer" where
  "reduce_all st = foldl (\<lambda>st b. processBucket b st) st [0 ..< NUM_BUCKETS]"

text \<open>The temporary files as the first phase leaves them, and \<^verbatim>\<open>main\<close>.\<close>

definition written_files :: "BucketWriter \<Rightarrow> nat \<Rightarrow> uint128_t list option" where
  "written_files w = (\<lambda>b. if b < NUM_BUCKETS then Some (streams w b) else None)"

definition main :: "environment \<Rightarrow> outcome" where
  "main env =
     (if argc env \<noteq> 3
      then \<lparr> exit_status = 1,
             diagnostics = [''Usage in format: '' @ program_name env @
                            '' <input_file> <output_file>''],
             output_file = None \<rparr>
      else case input_file env of
        None \<Rightarrow> \<lparr> exit_status = 1, diagnostics = [''Error: Could not open input file.''],
                  output_file = None \<rparr>
      | Some content \<Rightarrow>
          (case openAll (can_create_temp env) of
             Inl i \<Rightarrow> \<lparr> exit_status = 1,
                        diagnostics = [''Error: Could not open temp file temp_bucket_'' @
                                       decimal i @ ''.bin''],
                        output_file = None \<rparr>
           | Inr writer \<Rightarrow>
               let w = flushAllAndClose (ingest (getlines content) writer);
                   st = reduce_all \<lparr> files = written_files w, total_unique_count = 0,
                                      contents_read = [] \<rparr>
               in if can_write_output env
                  then \<lparr> exit_status = 0, diagnostics = [],
                         output_file = Some (decimal (unat (total_unique_count st)) @ [CHR 0x0A]) \<rparr>
                  else \<lparr> exit_status = 0, diagnostics = [''Error: Could not write output file.''],
                         output_file = None \<rparr>))"

section \<open>The worker pool\<close>

text \<open>
  A worker thread runs
  \<^verbatim>\<open>while (true) { size_t b = currentBucket.fetch_add(1); if (b >= NUM_BUCKETS) break; processBucket(b); }\<close>.
  Between two steps it is about to claim a bucket, or it holds a bucket it has claimed and
  not yet processed, or it has left its loop.
\<close>

datatype worker = Claiming | Holding nat | Left

text \<open>
  The state the threads share: the atomic counter \<^verbatim>\<open>currentBucket\<close>, the threads, the
  state of the second phase, and the log of the calls of \<^verbatim>\<open>processBucket\<close>.
\<close>

record pool =
  currentBucket :: nat
  workers :: "worker list"
  shared :: reducer
  processed :: "nat list"

text \<open>
  One step of thread \<open>t\<close>, taken while the others stand still.  \<^verbatim>\<open>fetch_add\<close> is one
  atomic step: it returns the counter and adds one to it.  A call of \<^verbatim>\<open>processBucket\<close>
  is one step as well: it works on the file of its own bucket, and what it shares with
  the other threads is one atomic addition to \<^verbatim>\<open>total_unique_count\<close>.  A thread that
  has left its loop, or that is not there, takes no step: \<open>None\<close>.
\<close>

definition thread_step :: "nat \<Rightarrow> pool \<Rightarrow> pool option" where
  "thread_step t p =
     (if t < length (workers p) then
        (case workers p ! t of
           Claiming \<Rightarrow>
             Some (p\<lparr> currentBucket := currentBucket p + 1,
                      workers := (workers p)[t := (if currentBucket p \<ge> NUM_BUCKETS then Left
                                                   else Holding (currentBucket p))] \<rparr>)
         | Holding b \<Rightarrow>
             Some (p\<lparr> workers := (workers p)[t := Claiming],
                      shared := processBucket b (shared p),
                      processed := processed p @ [b] \<rparr>)
         | Left \<Rightarrow> None)
      else None)"

text \<open>
  An interleaving of the threads is a schedule: the list of the threads in the order in
  which they take their steps.  \<open>run\<close> takes the steps of a schedule one after the
  other; it is \<open>None\<close> when the schedule asks a step of a thread that has none to take.
\<close>

fun run :: "nat list \<Rightarrow> pool \<Rightarrow> pool option" where
  "run [] p = Some p"
| "run (t # ts) p = (case thread_step t p of None \<Rightarrow> None | Some q \<Rightarrow> run ts q)"

text \<open>
  The pool when the threads are started.  \<^verbatim>\<open>main\<close> starts as many threads as
  \<^verbatim>\<open>hardware_concurrency()\<close> answers, four when the answer is zero: at least one.  It
  joins the threads: it goes on when all have left their loops.  The counter is a
  \<^verbatim>\<open>size_t\<close>; it is never more than \<^verbatim>\<open>NUM_BUCKETS\<close> plus the number of threads, which is
  an \<^verbatim>\<open>unsigned int\<close>, so it does not wrap around.
\<close>

definition start :: "nat \<Rightarrow> reducer \<Rightarrow> pool" where
  "start nThreads st =
     \<lparr> currentBucket = 0, workers = replicate nThreads Claiming, shared = st, processed = [] \<rparr>"

definition joined :: "pool \<Rightarrow> bool" where
  "joined p = list_all (\<lambda>w. w = Left) (workers p)"

section \<open>Notions used to state the properties\<close>

subsection \<open>Lines and the groups written in them\<close>

text \<open>
  A hexadecimal digit is a character for which \<^verbatim>\<open>hexDigitToInt\<close> does not answer \<open>-1\<close>.
  The number a run of digits denotes is read from the left in base sixteen; the group of
  sixteen bits it denotes is that number modulo \<open>2\<^sup>1\<^sup>6\<close>.
\<close>

definition is_hex :: "char \<Rightarrow> bool" where
  "is_hex c = (hexDigitToInt c \<noteq> - 1)"

definition hex_value :: "string \<Rightarrow> nat" where
  "hex_value ds = foldl (\<lambda>a c. 16 * a + nat (hexDigitToInt c)) 0 ds"

definition group_value :: "string \<Rightarrow> 16 word" where
  "group_value ds = word_of_nat (hex_value ds)"

text \<open>
  A group as the parser reads it is a run of one or more hexadecimal digits, of any
  length; a group as the grammar of addresses has it is one of at most four digits.
\<close>

definition hex_group :: "string \<Rightarrow> bool" where
  "hex_group ds = (ds \<noteq> [] \<and> list_all is_hex ds)"

definition wf_group :: "string \<Rightarrow> bool" where
  "wf_group ds = (ds \<noteq> [] \<and> length ds \<le> 4 \<and> list_all is_hex ds)"

text \<open>What comes next in the line is not a hexadecimal digit, or is not a colon.\<close>

definition no_hex_ahead :: "string \<Rightarrow> bool" where
  "no_hex_ahead s = (case s of [] \<Rightarrow> True | c # _ \<Rightarrow> hexDigitToInt c = - 1)"

definition no_colon_ahead :: "string \<Rightarrow> bool" where
  "no_colon_ahead s = (case s of [] \<Rightarrow> True | c # _ \<Rightarrow> c \<noteq> CHR '':'')"

text \<open>Groups with a colon between them, and groups with a colon after each of them.\<close>

fun join_colon :: "string list \<Rightarrow> string" where
  "join_colon [] = []"
| "join_colon [g] = g"
| "join_colon (g # gs) = g @ CHR '':'' # join_colon gs"

definition colon_each :: "string list \<Rightarrow> string" where
  "colon_each gs = concat (map (\<lambda>g. g @ '':'') gs)"

text \<open>
  The state with which \<^verbatim>\<open>parseIPv6\<close> starts, and the state after the group \<open>g\<close> has
  been stored in the next free slot.
\<close>

definition initial_state :: pstate where
  "initial_state = \<lparr> parts = replicate 8 0, current_part = 0, double_colon_index = - 1 \<rparr>"

definition store_group :: "pstate \<Rightarrow> string \<Rightarrow> pstate" where
  "store_group st g =
     st\<lparr>parts := (parts st)[current_part st := group_value g],
        current_part := current_part st + 1\<rparr>"

subsection \<open>The text forms of an address\<close>

text \<open>
  The two text forms of an address (RFC 4291, section 2.2): all eight groups written
  out, or the groups before and after one marker \<^verbatim>\<open>::\<close> that stands for one or more
  groups of zero, so that fewer than eight groups are written.  Either side of the marker
  may be empty.  A group is written with one to four hexadecimal digits.  The address a
  text form denotes is the list of its eight groups, as numbers.
\<close>

datatype spelling = Full "string list" | Compressed "string list" "string list"

fun render :: "spelling \<Rightarrow> string" where
  "render (Full gs) = join_colon gs"
| "render (Compressed pre post) = join_colon pre @ ''::'' @ join_colon post"

fun well_formed :: "spelling \<Rightarrow> bool" where
  "well_formed (Full gs) = (length gs = 8 \<and> list_all wf_group gs)"
| "well_formed (Compressed pre post) =
     (length pre + length post < 8 \<and> list_all wf_group pre \<and> list_all wf_group post)"

fun groups_of :: "spelling \<Rightarrow> nat list" where
  "groups_of (Full gs) = map hex_value gs"
| "groups_of (Compressed pre post) =
     map hex_value pre @ replicate (8 - (length pre + length post)) 0 @ map hex_value post"

text \<open>
  The key of an address given by its eight groups.  The groups of an address are eight
  numbers below \<open>2\<^sup>1\<^sup>6\<close>.
\<close>

definition key_of_groups :: "nat list \<Rightarrow> uint128_t" where
  "key_of_groups gs = pack (map word_of_nat gs)"

definition groups_ok :: "nat list \<Rightarrow> bool" where
  "groups_ok gs = (length gs = 8 \<and> list_all (\<lambda>g. g < 2 ^ 16) gs)"

text \<open>
  A file whose lines are known: a line is the text form of an address, or such a text
  form with a carriage return after it, or any other text.  A line of the last kind is
  in order when it is empty or the parser rejects it.  The addresses of the file are
  those of its lines of the first two kinds.
\<close>

datatype entry = Address spelling | Address_CR spelling | Other string

fun line_of :: "entry \<Rightarrow> string" where
  "line_of (Address s) = render s"
| "line_of (Address_CR s) = render s @ [CHR 0x0D]"
| "line_of (Other l) = l"

fun entry_ok :: "entry \<Rightarrow> bool" where
  "entry_ok (Address s) = well_formed s"
| "entry_ok (Address_CR s) = well_formed s"
| "entry_ok (Other l) = (l = [] \<or> parseIPv6 (strip_cr l) = None)"

fun address_of :: "entry \<Rightarrow> nat list option" where
  "address_of (Address s) = Some (groups_of s)"
| "address_of (Address_CR s) = Some (groups_of s)"
| "address_of (Other l) = None"

definition addresses :: "entry list \<Rightarrow> nat list list" where
  "addresses es = List.map_filter address_of es"

text \<open>The number of colons in a line, and whether two colons stand side by side in it.\<close>

definition colons :: "string \<Rightarrow> nat" where
  "colons s = length (filter (\<lambda>c. c = CHR '':'') s)"

fun has_marker :: "string \<Rightarrow> bool" where
  "has_marker (c1 # c2 # cs) = ((c1 = CHR '':'' \<and> c2 = CHR '':'') \<or> has_marker (c2 # cs))"
| "has_marker cs = False"

subsection \<open>The keys of a file and their partitions\<close>

text \<open>
  The keys of the lines that \<^verbatim>\<open>main\<close> hands to the writer, in the order of the lines:
  a line counts when it is not empty and the parser accepts it, after one carriage return
  at its end has been taken off.
\<close>

definition accepted_keys :: "string list \<Rightarrow> uint128_t list" where
  "accepted_keys lines =
     List.map_filter (\<lambda>line. if line = [] then None else parseIPv6 (strip_cr line)) lines"

text \<open>
  The writer after a list of keys has been added, what a bucket holds on disk and in
  memory together, and what the first phase leaves when all files could be opened.
\<close>

definition route :: "uint128_t list \<Rightarrow> BucketWriter \<Rightarrow> BucketWriter" where
  "route ks w = foldl (\<lambda>w k. add (bucketIdx k) k w) w ks"

definition held :: "BucketWriter \<Rightarrow> nat \<Rightarrow> uint128_t list" where
  "held w b = streams w b @ buffers w b"

definition partitioned :: "string list \<Rightarrow> BucketWriter" where
  "partitioned lines =
     flushAllAndClose (ingest lines \<lparr> streams = (\<lambda>i. []), buffers = (\<lambda>i. []) \<rparr>)"

text \<open>A key as one number of 128 bits, and the number of distinct keys in a file.\<close>

definition key_nat :: "uint128_t \<Rightarrow> nat" where
  "key_nat k = unat (hi k) * 2 ^ 64 + unat (lo k)"

definition bucket_count :: "uint128_t list option \<Rightarrow> nat" where
  "bucket_count f = (case f of None \<Rightarrow> 0 | Some ks \<Rightarrow> card (set ks))"

subsection \<open>Invariants of the worker pool\<close>

text \<open>
  What holds of the pool of \<open>n\<close> threads in every state it reaches: a bucket that a
  thread holds has not been processed, lies below the counter and below
  \<^verbatim>\<open>NUM_BUCKETS\<close>, and is held by no other thread; the processed buckets lie below the
  counter; every bucket below the counter is processed or held; and a thread has left
  its loop only when the counter has reached \<^verbatim>\<open>NUM_BUCKETS\<close>.
\<close>

definition pool_inv :: "nat \<Rightarrow> pool \<Rightarrow> bool" where
  "pool_inv n p \<longleftrightarrow>
     length (workers p) = n \<and> distinct (processed p) \<and>
     (\<forall>t<n. \<forall>b. workers p ! t = Holding b \<longrightarrow>
        b \<notin> set (processed p) \<and> b < currentBucket p \<and> b < NUM_BUCKETS) \<and>
     (\<forall>t<n. \<forall>t'<n. \<forall>b. workers p ! t = Holding b \<longrightarrow> workers p ! t' = Holding b \<longrightarrow> t' = t) \<and>
     (\<forall>b\<in>set (processed p). b < currentBucket p \<and> b < NUM_BUCKETS) \<and>
     (\<forall>b. b < currentBucket p \<longrightarrow> b < NUM_BUCKETS \<longrightarrow>
        b \<in> set (processed p) \<or> (\<exists>t<n. workers p ! t = Holding b)) \<and>
     (\<forall>t<n. workers p ! t = Left \<longrightarrow> NUM_BUCKETS \<le> currentBucket p)"

text \<open>
  The state the threads share, in terms of the state \<open>st\<close> they started with: the counter
  of distinct keys has grown by the counts of the processed buckets, whose files are gone.
\<close>

definition shared_inv :: "reducer \<Rightarrow> pool \<Rightarrow> bool" where
  "shared_inv st p \<longleftrightarrow>
     total_unique_count (shared p)
       = total_unique_count st + word_of_nat (\<Sum>b\<leftarrow>processed p. bucket_count (files st b)) \<and>
     (\<forall>b. files (shared p) b = (if b \<in> set (processed p) then None else files st b))"

section \<open>Properties of the parser\<close>

subsection \<open>Reading the digits of a group\<close>

text \<open>
  The accumulator has 32 bits and the group is its low 16 bits.  A digit shifts the
  accumulator by four bits, so the low 16 bits after the digit depend only on the low
  16 bits before it: they are sixteen times the old value plus the digit, modulo
  \<open>2\<^sup>1\<^sup>6\<close>.
\<close>

lemma hexDigit_range: "is_hex c \<Longrightarrow> 0 \<le> hexDigitToInt c \<and> hexDigitToInt c < 16"
  by (auto simp: is_hex_def hexDigitToInt_def Let_def split: if_splits)

lemma ucast_or_down: "(ucast ((a::32 word) OR b) :: 16 word) = ucast a OR ucast b"
  by (rule bit_eqI) (auto simp: bit_simps)

lemma ucast_push_down: "(ucast (push_bit 4 (a::32 word)) :: 16 word) = push_bit 4 (ucast a)"
  by (rule bit_eqI) (auto simp: bit_simps)

lemma small_bits:
  assumes "n < 16" and "bit (word_of_nat n :: 16 word) k"
  shows "k < 4"
proof (rule ccontr)
  assume "\<not> k < 4"
  then have "(2::nat) ^ 4 \<le> 2 ^ k"
    by (intro power_increasing) auto
  with assms(1) have "n div 2 ^ k = 0"
    by simp
  then have "\<not> bit n k"
    by (simp add: bit_iff_odd)
  with assms(2) show False
    by (simp add: bit_simps)
qed

lemma push_or_small:
  assumes "n < 16"
  shows "push_bit 4 (w :: 16 word) OR word_of_nat n = 16 * w + word_of_nat n"
proof -
  have "push_bit 4 w + word_of_nat n = push_bit 4 w OR word_of_nat n"
    by (rule disjunctive_add) (use assms in \<open>auto simp: bit_push_bit_iff dest: small_bits\<close>)
  then show ?thesis
    by (simp add: push_bit_eq_mult mult.commute)
qed

lemma accum_step16:
  assumes "is_hex c"
  shows "(ucast (push_bit 4 (v::32 word) OR word_of_int (hexDigitToInt c)) :: 16 word)
         = 16 * ucast v + word_of_nat (nat (hexDigitToInt c))"
proof -
  from hexDigit_range [OF assms] have r: "0 \<le> hexDigitToInt c" "nat (hexDigitToInt c) < 16"
    by auto
  have "(ucast (word_of_int (hexDigitToInt c) :: 32 word) :: 16 word) = word_of_int (hexDigitToInt c)"
    by (rule ucast_down_wi) (simp add: is_down)
  also have "\<dots> = word_of_nat (nat (hexDigitToInt c))"
    using r(1) by (simp only: word_of_int_nat)
  finally have d: "(ucast (word_of_int (hexDigitToInt c) :: 32 word) :: 16 word)
      = word_of_nat (nat (hexDigitToInt c))" .
  show ?thesis
    by (simp only: ucast_or_down ucast_push_down d push_or_small [OF r(2)])
qed

lemma read_hex_run:
  "list_all is_hex ds \<Longrightarrow> no_hex_ahead rest \<Longrightarrow>
   \<exists>v'. read_hex v h (ds @ rest) = (v', h \<or> ds \<noteq> [], rest) \<and>
        (ucast v' :: 16 word) = word_of_nat (foldl (\<lambda>a c. 16 * a + nat (hexDigitToInt c)) n ds)
          + (ucast v - word_of_nat n) * 16 ^ length ds"
proof (induction ds arbitrary: v h n)
  case Nil
  then show ?case
    by (cases rest) (auto simp: no_hex_ahead_def)
next
  case (Cons c ds)
  then have c: "is_hex c" and ds: "list_all is_hex ds" by auto
  from Cons.IH [OF ds Cons.prems(2), of "push_bit 4 v OR word_of_int (hexDigitToInt c)" True
      "16 * n + nat (hexDigitToInt c)"]
  obtain v' where v': "read_hex (push_bit 4 v OR word_of_int (hexDigitToInt c)) True (ds @ rest)
       = (v', True, rest)"
    and u: "(ucast v' :: 16 word) =
      word_of_nat (foldl (\<lambda>a c. 16 * a + nat (hexDigitToInt c)) (16 * n + nat (hexDigitToInt c)) ds)
      + (ucast (push_bit 4 v OR word_of_int (hexDigitToInt c)) - word_of_nat (16 * n + nat (hexDigitToInt c))) * 16 ^ length ds"
    by auto
  have "read_hex v h ((c # ds) @ rest) = (v', True, rest)"
    using c v' by (simp add: is_hex_def)
  moreover have "(ucast v' :: 16 word) =
      word_of_nat (foldl (\<lambda>a c. 16 * a + nat (hexDigitToInt c)) n (c # ds))
      + (ucast v - word_of_nat n) * 16 ^ length (c # ds)"
    unfolding u accum_step16 [OF c] by (simp add: algebra_simps)
  ultimately show ?case by simp
qed

lemma read_hex_group:
  assumes "list_all is_hex ds" "no_hex_ahead rest"
  shows "\<exists>v'. read_hex 0 False (ds @ rest) = (v', ds \<noteq> [], rest) \<and> (ucast v' :: 16 word) = group_value ds"
  using read_hex_run [OF assms, of 0 False 0] by (simp add: group_value_def hex_value_def)

subsection \<open>One round of the main loop\<close>

text \<open>
  A round that finds a group stores it and then looks at what follows: the end of the
  line or white space ends the loop, one colon starts the next round, two colons record
  the marker or reject the line, anything else rejects the line.  A round that finds no
  digit does the same without storing.
\<close>

lemma colon_facts [simp]: "hexDigitToInt CHR '':'' = - 1" "\<not> isspace CHR '':''" "\<not> is_hex CHR '':''"
  by (simp_all add: hexDigitToInt_def isspace_def is_hex_def)

lemma no_hex_ahead_Nil [simp]: "no_hex_ahead []" "no_colon_ahead []"
  by (simp_all add: no_hex_ahead_def no_colon_ahead_def)

lemma hex_not_space: "is_hex c \<Longrightarrow> \<not> isspace c"
  by (auto simp: is_hex_def hexDigitToInt_def isspace_def Let_def split: if_splits)

lemma hex_not_colon: "is_hex c \<Longrightarrow> c \<noteq> CHR '':''"
  by auto

lemma parse_loop_group:
  assumes g: "hex_group g" and rest: "no_hex_ahead rest" and cp: "current_part st < 8"
  shows "parse_loop (g @ rest) st =
     (case rest of
        [] \<Rightarrow> Some (store_group st g)
      | c # s2 \<Rightarrow>
          if isspace c then Some (store_group st g)
          else if c = CHR '':'' then
            (case s2 of
               [] \<Rightarrow> parse_loop s2 (store_group st g)
             | c2 # s3 \<Rightarrow>
                 if c2 = CHR '':'' then
                   (if double_colon_index st \<noteq> - 1 then None
                    else parse_loop s3
                      ((store_group st g)\<lparr>double_colon_index := int (current_part st + 1)\<rparr>))
                 else parse_loop s2 (store_group st g))
          else None)"
proof -
  from g have ne: "g @ rest \<noteq> []" and hx: "list_all is_hex g" and gne: "g \<noteq> []"
    by (auto simp: hex_group_def)
  from read_hex_group [OF hx rest] obtain v' where
    r: "read_hex 0 False (g @ rest) = (v', True, rest)" and u: "(ucast v' :: 16 word) = group_value g"
    using gne by auto
  show ?thesis
    by (subst parse_loop.simps) (simp add: ne gne cp r u store_group_def split: list.splits)
qed

lemma parse_loop_nogroup:
  assumes rest: "no_hex_ahead rest" and ne: "rest \<noteq> []" and cp: "current_part st < 8"
  shows "parse_loop rest st =
     (case rest of
        [] \<Rightarrow> Some st
      | c # s2 \<Rightarrow>
          if isspace c then Some st
          else if c = CHR '':'' then
            (case s2 of
               [] \<Rightarrow> parse_loop s2 st
             | c2 # s3 \<Rightarrow>
                 if c2 = CHR '':'' then
                   (if double_colon_index st \<noteq> - 1 then None
                    else parse_loop s3 (st\<lparr>double_colon_index := int (current_part st)\<rparr>))
                 else parse_loop s2 st)
          else None)"
proof -
  from read_hex_group [of "[]" rest] rest obtain v' where
    r: "read_hex 0 False rest = (v', False, rest)"
    by auto
  show ?thesis
    by (subst parse_loop.simps) (simp add: ne cp r split: list.splits)
qed

lemma parse_loop_stop: "s = [] \<or> \<not> current_part st < 8 \<Longrightarrow> parse_loop s st = Some st"
  by (subst parse_loop.simps) auto

lemma parse_loop_group_colon:
  assumes "hex_group g" "current_part st < 8" "no_colon_ahead rest"
  shows "parse_loop (g @ CHR '':'' # rest) st = parse_loop rest (store_group st g)"
  using assms(3) parse_loop_group [OF assms(1) _ assms(2), of "CHR '':'' # rest"]
  by (auto simp: no_hex_ahead_def no_colon_ahead_def split: list.splits)

subsection \<open>Groups joined by colons\<close>

lemma join_colon_Cons: "gs \<noteq> [] \<Longrightarrow> join_colon (g # gs) = g @ CHR '':'' # join_colon gs"
  by (cases gs) auto

lemma join_colon_snoc: "join_colon (gs @ [g]) = colon_each gs @ g"
  by (induction gs rule: join_colon.induct) (auto simp: colon_each_def)

lemma join_colon_append:
  "ys \<noteq> [] \<Longrightarrow> join_colon (xs @ ys) = colon_each xs @ join_colon ys"
  by (induction xs) (auto simp: colon_each_def join_colon_Cons)

lemma hex_group_head: "hex_group g \<Longrightarrow> \<exists>c cs. g = c # cs \<and> is_hex c"
  by (cases g) (auto simp: hex_group_def)

lemma join_colon_head:
  assumes "\<forall>g\<in>set gs. hex_group g" "gs \<noteq> []"
  shows "\<exists>c s. join_colon gs = c # s \<and> is_hex c"
proof (cases gs)
  case Nil
  with assms show ?thesis by simp
next
  case (Cons g gs')
  with assms(1) obtain c cs where "g = c # cs" "is_hex c"
    using hex_group_head [of g] by auto
  then show ?thesis using Cons by (cases gs') auto
qed

lemma no_colon_ahead_group: "hex_group g \<Longrightarrow> no_colon_ahead (g @ s)"
  by (auto dest!: hex_group_head simp: no_colon_ahead_def)

lemma no_colon_ahead_colon_each:
  "\<forall>g\<in>set gs. hex_group g \<Longrightarrow> no_colon_ahead rest \<Longrightarrow> no_colon_ahead (colon_each gs @ rest)"
  by (cases gs) (auto simp: colon_each_def no_colon_ahead_group)

lemma no_colon_ahead_join:
  assumes "\<forall>g\<in>set gs. hex_group g"
  shows "no_colon_ahead (join_colon gs)"
proof (cases gs rule: join_colon.cases)
  case 1
  then show ?thesis by (simp add: no_colon_ahead_def)
next
  case (2 g)
  then show ?thesis using assms no_colon_ahead_group [of g "[]"] by simp
next
  case (3 g v va)
  then show ?thesis using assms by (simp add: no_colon_ahead_group)
qed

subsection \<open>Storing a list of groups\<close>

lemma store_group_fields [simp]:
  "current_part (store_group st g) = current_part st + 1"
  "double_colon_index (store_group st g) = double_colon_index st"
  "parts (store_group st g) = (parts st)[current_part st := group_value g]"
  by (simp_all add: store_group_def)

lemma foldl_store_fields [simp]:
  "current_part (foldl store_group st gs) = current_part st + length gs"
  "double_colon_index (foldl store_group st gs) = double_colon_index st"
  by (induction gs arbitrary: st) simp_all

lemma store_group_dci:
  "store_group (st\<lparr>double_colon_index := d\<rparr>) g
   = (store_group st g)\<lparr>double_colon_index := d\<rparr>"
  by (simp add: store_group_def)

lemma foldl_store_dci:
  "foldl store_group (st\<lparr>double_colon_index := d\<rparr>) gs
   = (foldl store_group st gs)\<lparr>double_colon_index := d\<rparr>"
  by (induction gs arbitrary: st) (simp_all add: store_group_dci)

lemma parts_foldl_store:
  "current_part st + length gs \<le> length (parts st) \<Longrightarrow>
   parts (foldl store_group st gs) =
     take (current_part st) (parts st) @ map group_value gs @
     drop (current_part st + length gs) (parts st)"
proof (induction gs arbitrary: st)
  case Nil
  then show ?case by simp
next
  case (Cons g gs)
  from Cons.prems have lt: "current_part st < length (parts st)" by simp
  have "parts (foldl store_group (store_group st g) gs) =
     take (current_part st + 1) ((parts st)[current_part st := group_value g]) @ map group_value gs @
     drop (current_part st + 1 + length gs) ((parts st)[current_part st := group_value g])"
    using Cons.prems by (subst Cons.IH) simp_all
  also have "take (current_part st + 1) ((parts st)[current_part st := group_value g])
      = take (current_part st) (parts st) @ [group_value g]"
    using lt by (simp add: take_Suc_conv_app_nth)
  finally show ?case by simp
qed

subsection \<open>The loop on a list of groups\<close>

text \<open>
  Groups that are each followed by one colon are stored one after the other, as long
  as there is room for them; the loop then goes on with what follows.  A list of groups
  before the marker is stored and the marker recorded; a second marker that the loop
  reaches rejects the line.
\<close>

lemma parse_loop_colon_each:
  "\<forall>g\<in>set gs. hex_group g \<Longrightarrow> current_part st + length gs \<le> 8 \<Longrightarrow> no_colon_ahead rest \<Longrightarrow>
   parse_loop (colon_each gs @ rest) st = parse_loop rest (foldl store_group st gs)"
proof (induction gs arbitrary: st)
  case Nil
  then show ?case by (simp add: colon_each_def)
next
  case (Cons g gs)
  have tail: "no_colon_ahead (colon_each gs @ rest)"
    using Cons.prems by (intro no_colon_ahead_colon_each) auto
  have "parse_loop (colon_each (g # gs) @ rest) st
      = parse_loop (g @ CHR '':'' # (colon_each gs @ rest)) st"
    by (simp add: colon_each_def)
  also have "\<dots> = parse_loop (colon_each gs @ rest) (store_group st g)"
    using Cons.prems by (intro parse_loop_group_colon tail) auto
  also have "\<dots> = parse_loop rest (foldl store_group (store_group st g) gs)"
    using Cons.prems by (intro Cons.IH) auto
  finally show ?case by simp
qed

lemma parse_loop_join:
  assumes gs: "\<forall>g\<in>set gs. hex_group g" and len: "current_part st + length gs \<le> 8"
  shows "parse_loop (join_colon gs) st = Some (foldl store_group st gs)"
proof (cases gs rule: rev_cases)
  case Nil
  then show ?thesis by (simp add: parse_loop_stop)
next
  case (snoc xs g)
  have "parse_loop (join_colon gs) st = parse_loop (colon_each xs @ g) st"
    by (simp add: snoc join_colon_snoc)
  also have "\<dots> = parse_loop g (foldl store_group st xs)"
    using gs len snoc by (intro parse_loop_colon_each no_colon_ahead_group [of g "[]", simplified]) auto
  also have "\<dots> = Some (store_group (foldl store_group st xs) g)"
    using parse_loop_group [of g "[]" "foldl store_group st xs"] gs len snoc by simp
  finally show ?thesis by (simp add: snoc)
qed

lemma parse_loop_marker:
  assumes pre: "\<forall>g\<in>set pre. hex_group g" "pre \<noteq> []"
    and len: "current_part st + length pre \<le> 8"
    and dci: "double_colon_index st = - 1"
  shows "parse_loop (join_colon pre @ ''::'' @ tail) st =
         parse_loop tail ((foldl store_group st pre)
                            \<lparr>double_colon_index := int (current_part st + length pre)\<rparr>)"
proof -
  from pre(2) obtain xs g where snoc: "pre = xs @ [g]"
    by (cases pre rule: rev_cases) auto
  let ?st = "foldl store_group st xs"
  have g: "hex_group g" and xs: "\<forall>g\<in>set xs. hex_group g"
    using pre(1) snoc by auto
  have "parse_loop (join_colon pre @ ''::'' @ tail) st
      = parse_loop (colon_each xs @ (g @ ''::'' @ tail)) st"
    by (simp add: snoc join_colon_snoc)
  also have "\<dots> = parse_loop (g @ ''::'' @ tail) ?st"
    using xs len snoc g by (intro parse_loop_colon_each no_colon_ahead_group) auto
  also have "\<dots> = parse_loop tail ((store_group ?st g)
       \<lparr>double_colon_index := int (current_part ?st + 1)\<rparr>)"
    using parse_loop_group [OF g, of "''::'' @ tail" ?st] len snoc dci
    by (simp add: no_hex_ahead_def)
  finally show ?thesis
    by (simp add: snoc)
qed

lemma parse_loop_second_marker:
  assumes mid: "\<forall>g\<in>set mid. hex_group g"
    and len: "current_part st + length mid \<le> 8" "mid = [] \<longrightarrow> current_part st < 8"
    and dci: "double_colon_index st \<noteq> - 1"
  shows "parse_loop (join_colon mid @ ''::'' @ rest) st = None"
proof (cases mid rule: rev_cases)
  case Nil
  then show ?thesis
    using parse_loop_nogroup [of "''::'' @ rest" st] len dci
    by (simp add: no_hex_ahead_def)
next
  case (snoc xs g)
  let ?st = "foldl store_group st xs"
  have g: "hex_group g" and xs: "\<forall>g\<in>set xs. hex_group g"
    using mid snoc by auto
  have "parse_loop (join_colon mid @ ''::'' @ rest) st
      = parse_loop (colon_each xs @ (g @ ''::'' @ rest)) st"
    by (simp add: snoc join_colon_snoc)
  also have "\<dots> = parse_loop (g @ ''::'' @ rest) ?st"
    using xs len snoc g by (intro parse_loop_colon_each no_colon_ahead_group) auto
  also have "\<dots> = None"
    using parse_loop_group [OF g, of "''::'' @ rest" ?st] len snoc dci
    by (simp add: no_hex_ahead_def)
  finally show ?thesis .
qed

subsection \<open>The expansion of the marker\<close>

text \<open>
  With fewer than eight groups read, the loop of the expansion moves the groups read
  after the marker to the end of the array, last group first, and leaves zero behind:
  after \<open>k\<close> steps the last \<open>k\<close> slots hold the last \<open>k\<close> groups, the \<open>k\<close> slots below
  \<^verbatim>\<open>parts_parsed\<close> that have not been written again hold zero, the others are as before.
\<close>

lemma length_shift_part [simp]: "length (shift_part p ps k) = length ps"
  by (simp add: shift_part_def)

lemma length_foldl_shift [simp]: "length (foldl (shift_part p) ps ks) = length ps"
  by (induction ks arbitrary: ps) simp_all

lemma foldl_shift_nth:
  assumes "length ps = 8" "p < 8"
  shows "k \<le> p \<Longrightarrow> j < 8 \<Longrightarrow>
    foldl (shift_part p) ps [0 ..< k] ! j =
      (if 8 - k \<le> j then ps ! (j + p - 8) else if p - k \<le> j \<and> j < p then 0 else ps ! j)"
proof (induction k arbitrary: j)
  case 0
  then show ?case by auto
next
  case (Suc k)
  let ?r = "foldl (shift_part p) ps [0 ..< k]"
  have len: "length ?r = 8" using assms by simp
  have src: "?r ! (p - Suc k) = ps ! (p - Suc k)"
    using Suc.prems assms by (subst Suc.IH) auto
  have "foldl (shift_part p) ps [0 ..< Suc k] ! j = shift_part p ?r k ! j"
    by simp
  also have "\<dots> = (if j = p - 1 - k then 0 else if j = 7 - k then ps ! (p - 1 - k) else ?r ! j)"
    using Suc.prems assms len by (simp add: shift_part_def src nth_list_update)
  also have "\<dots> = (if 8 - Suc k \<le> j then ps ! (j + p - 8)
       else if p - Suc k \<le> j \<and> j < p then 0 else ps ! j)"
  proof -
    have "?r ! j = (if 8 - k \<le> j then ps ! (j + p - 8) else if p - k \<le> j \<and> j < p then 0 else ps ! j)"
      using Suc.prems by (intro Suc.IH) auto
    moreover have "j = 7 - k \<Longrightarrow> p - 1 - k = j + p - 8"
      using Suc.prems assms by auto
    ultimately show ?thesis
      using Suc.prems assms by (auto simp: Suc_le_eq)
  qed
  finally show ?case .
qed

lemma expand_below_eight:
  assumes "length a + length b < 8"
  shows "expand (a @ b @ replicate (8 - (length a + length b)) 0) (length a + length b) (length a)
         = a @ replicate (8 - (length a + length b)) 0 @ b"
proof (rule nth_equalityI)
  let ?p = "length a + length b"
  let ?ps = "a @ b @ replicate (8 - ?p) 0"
  have len: "length ?ps = 8" using assms by simp
  show "length (expand ?ps ?p (length a)) = length (a @ replicate (8 - ?p) 0 @ b)"
    using assms by (simp add: expand_def)
  fix j assume "j < length (expand ?ps ?p (length a))"
  then have j: "j < 8" using assms by (simp add: expand_def)
  have "expand ?ps ?p (length a) ! j = foldl (shift_part ?p) ?ps [0 ..< length b] ! j"
    by (simp add: expand_def)
  also have "\<dots> = (if 8 - length b \<le> j then ?ps ! (j + ?p - 8)
       else if ?p - length b \<le> j \<and> j < ?p then 0 else ?ps ! j)"
    using assms j by (intro foldl_shift_nth len) auto
  also have "\<dots> = (a @ replicate (8 - ?p) 0 @ b) ! j"
    using assms j by (auto simp: nth_append)
  finally show "expand ?ps ?p (length a) ! j = (a @ replicate (8 - ?p) 0 @ b) ! j" .
qed

text \<open>
  With eight groups read, \<^verbatim>\<open>parts_parsed - 1 - k\<close> is \<^verbatim>\<open>7 - k\<close>: each step of the loop
  copies a slot onto itself and then sets it to zero.  After \<open>k\<close> steps the last \<open>k\<close>
  slots hold zero and the others are as before, so the groups read after the marker
  are lost.
\<close>

lemma foldl_shift_eight_nth:
  assumes "length ps = 8"
  shows "k \<le> 8 \<Longrightarrow> j < 8 \<Longrightarrow>
    foldl (shift_part 8) ps [0 ..< k] ! j = (if 8 - k \<le> j then 0 else ps ! j)"
proof (induction k arbitrary: j)
  case 0
  then show ?case by simp
next
  case (Suc k)
  let ?r = "foldl (shift_part 8) ps [0 ..< k]"
  have len: "length ?r = 8" using assms by simp
  have "foldl (shift_part 8) ps [0 ..< Suc k] ! j = shift_part 8 ?r k ! j"
    by simp
  also have "\<dots> = (if j = 7 - k then 0 else ?r ! j)"
    using Suc.prems len by (simp add: shift_part_def nth_list_update)
  also have "\<dots> = (if 8 - Suc k \<le> j then 0 else ps ! j)"
    using Suc.IH [of j] Suc.prems by auto
  finally show ?case .
qed

lemma expand_at_eight:
  assumes "length a + length b = 8"
  shows "expand (a @ b) 8 (length a) = a @ replicate (length b) 0"
proof (rule nth_equalityI)
  have len: "length (a @ b) = 8" using assms by simp
  have ts: "8 - length a = length b" using assms by simp
  show "length (expand (a @ b) 8 (length a)) = length (a @ replicate (length b) 0)"
    using assms by (simp add: expand_def)
  fix j assume "j < length (expand (a @ b) 8 (length a))"
  then have j: "j < 8" using assms by (simp add: expand_def)
  have "expand (a @ b) 8 (length a) ! j = foldl (shift_part 8) (a @ b) [0 ..< length b] ! j"
    by (simp add: expand_def ts)
  also have "\<dots> = (if 8 - length b \<le> j then 0 else (a @ b) ! j)"
    using assms j by (intro foldl_shift_eight_nth len) auto
  also have "\<dots> = (a @ replicate (length b) 0) ! j"
    using assms j by (auto simp: nth_append)
  finally show "expand (a @ b) 8 (length a) ! j = (a @ replicate (length b) 0) ! j" .
qed

lemma pack_zero: "pack (replicate 8 0) = \<lparr> hi = 0, lo = 0 \<rparr>"
  by (simp add: pack_def)

subsection \<open>The packed key\<close>

text \<open>
  Each group can be read back from the packed key.  As numbers, the high half of the key
  is made of the first four groups and the low half of the last four, sixteen bits
  each, the first of the four in the most significant place.
\<close>

lemma pack_group0: "ucast (drop_bit 48 (hi (pack ps))) = ps ! 0"
  by (rule bit_eqI) (auto simp: pack_def bit_simps dest: bit_imp_le_length)

lemma pack_group1: "ucast (drop_bit 32 (hi (pack ps))) = ps ! 1"
  by (rule bit_eqI) (auto simp: pack_def bit_simps dest: bit_imp_le_length)

lemma pack_group2: "ucast (drop_bit 16 (hi (pack ps))) = ps ! 2"
  by (rule bit_eqI) (auto simp: pack_def bit_simps dest: bit_imp_le_length)

lemma pack_group3: "ucast (hi (pack ps)) = ps ! 3"
  by (rule bit_eqI) (auto simp: pack_def bit_simps dest: bit_imp_le_length)

lemma pack_group4: "ucast (drop_bit 48 (lo (pack ps))) = ps ! 4"
  by (rule bit_eqI) (auto simp: pack_def bit_simps dest: bit_imp_le_length)

lemma pack_group5: "ucast (drop_bit 32 (lo (pack ps))) = ps ! 5"
  by (rule bit_eqI) (auto simp: pack_def bit_simps dest: bit_imp_le_length)

lemma pack_group6: "ucast (drop_bit 16 (lo (pack ps))) = ps ! 6"
  by (rule bit_eqI) (auto simp: pack_def bit_simps dest: bit_imp_le_length)

lemma pack_group7: "ucast (lo (pack ps)) = ps ! 7"
  by (rule bit_eqI) (auto simp: pack_def bit_simps dest: bit_imp_le_length)

lemma nat_split_16:
  fixes h :: nat
  assumes "h < 2 ^ 64"
  shows "h = (h div 2 ^ 48 mod 2 ^ 16) * 2 ^ 48 + (h div 2 ^ 32 mod 2 ^ 16) * 2 ^ 32
           + (h div 2 ^ 16 mod 2 ^ 16) * 2 ^ 16 + h mod 2 ^ 16"
proof -
  define q1 where "q1 = h div 2 ^ 16"
  define q2 where "q2 = q1 div 2 ^ 16"
  define q3 where "q3 = q2 div 2 ^ 16"
  have e2: "h div 2 ^ 32 = q2"
    unfolding q2_def q1_def by (simp add: div_mult2_eq [symmetric])
  have e3: "h div 2 ^ 48 = q3"
    unfolding q3_def q2_def q1_def by (simp add: div_mult2_eq [symmetric])
  have "q3 < 2 ^ 16"
    unfolding e3 [symmetric] using assms by (simp add: less_mult_imp_div_less)
  then have m3: "q3 mod 2 ^ 16 = q3"
    by simp
  have a: "h = q1 * 2 ^ 16 + h mod 2 ^ 16"
    unfolding q1_def by simp
  have b: "q1 = q2 * 2 ^ 16 + q1 mod 2 ^ 16"
    unfolding q2_def by simp
  have c: "q2 = q3 * 2 ^ 16 + q2 mod 2 ^ 16"
    unfolding q3_def by simp
  have "h = ((q3 * 2 ^ 16 + q2 mod 2 ^ 16) * 2 ^ 16 + q1 mod 2 ^ 16) * 2 ^ 16 + h mod 2 ^ 16"
    using a b c by simp
  also have "\<dots> = q3 * 2 ^ 48 + (q2 mod 2 ^ 16) * 2 ^ 32 + (q1 mod 2 ^ 16) * 2 ^ 16 + h mod 2 ^ 16"
    by (simp add: algebra_simps)
  finally show ?thesis
    unfolding e3 e2 m3 q1_def [symmetric] .
qed

lemma unat_groups_of_word:
  fixes w :: "64 word"
  shows "unat w = unat (ucast (drop_bit 48 w) :: 16 word) * 2 ^ 48
               + unat (ucast (drop_bit 32 w) :: 16 word) * 2 ^ 32
               + unat (ucast (drop_bit 16 w) :: 16 word) * 2 ^ 16
               + unat (ucast w :: 16 word)"
proof -
  have u: "unat (ucast (x :: 64 word) :: 16 word) = unat x mod 2 ^ 16" for x
    by (simp add: unsigned_ucast_eq take_bit_eq_mod)
  have d: "unat (drop_bit n w) = unat w div 2 ^ n" for n
    by (simp only: unat_drop_bit_eq) (simp only: drop_bit_eq_div)
  have "unat w < 2 ^ 64"
    using unsigned_less [of w, where 'a = nat] by simp
  from nat_split_16 [OF this] show ?thesis
    unfolding u d .
qed

lemma unat_hi_pack:
  "unat (hi (pack ps))
     = unat (ps ! 0) * 2 ^ 48 + unat (ps ! 1) * 2 ^ 32 + unat (ps ! 2) * 2 ^ 16 + unat (ps ! 3)"
  using unat_groups_of_word [of "hi (pack ps)"]
  by (simp only: pack_group0 pack_group1 pack_group2 pack_group3)

lemma unat_lo_pack:
  "unat (lo (pack ps))
     = unat (ps ! 4) * 2 ^ 48 + unat (ps ! 5) * 2 ^ 32 + unat (ps ! 6) * 2 ^ 16 + unat (ps ! 7)"
  using unat_groups_of_word [of "lo (pack ps)"]
  by (simp only: pack_group4 pack_group5 pack_group6 pack_group7)

lemma unat_group_value: "unat (group_value g) = hex_value g mod 2 ^ 16"
  by (simp add: group_value_def unat_of_nat)

lemma unat_pack_groups:
  assumes "8 \<le> length gs"
  shows "unat (hi (pack (map group_value (take 8 gs))))
           = (hex_value (gs ! 0) mod 2 ^ 16) * 2 ^ 48 + (hex_value (gs ! 1) mod 2 ^ 16) * 2 ^ 32
             + (hex_value (gs ! 2) mod 2 ^ 16) * 2 ^ 16 + hex_value (gs ! 3) mod 2 ^ 16"
    and "unat (lo (pack (map group_value (take 8 gs))))
           = (hex_value (gs ! 4) mod 2 ^ 16) * 2 ^ 48 + (hex_value (gs ! 5) mod 2 ^ 16) * 2 ^ 32
             + (hex_value (gs ! 6) mod 2 ^ 16) * 2 ^ 16 + hex_value (gs ! 7) mod 2 ^ 16"
  using assms by (simp_all add: unat_hi_pack unat_lo_pack unat_group_value)

subsection \<open>Whole lines\<close>

text \<open>
  A line of eight groups is accepted with these groups; a line with fewer than eight
  groups and one marker is accepted with the groups before the marker first, the groups
  after it last, and zero between.  The groups may have any number of digits.
\<close>

lemma parseIPv6_hex_start:
  assumes "is_hex c"
  shows "parseIPv6 (c # s) = finish (parse_loop (c # s) initial_state)"
  using hex_not_space [OF assms] hex_not_colon [OF assms]
  by (simp add: parseIPv6_def initial_state_def)

lemma parseIPv6_marker_start:
  assumes "s \<noteq> []" "\<not> isspace (hd s)"
  shows "parseIPv6 (''::'' @ s) = finish (parse_loop s (initial_state\<lparr>double_colon_index := 0\<rparr>))"
  using assms by (simp add: parseIPv6_def initial_state_def)

lemma parse_full_form:
  assumes gs: "\<forall>g\<in>set gs. hex_group g" and len: "length gs = 8"
  shows "parseIPv6 (join_colon gs) = Some (pack (map group_value gs))"
proof -
  from len have ne: "gs \<noteq> []" by auto
  from join_colon_head [OF gs ne] obtain c s where cs: "join_colon gs = c # s" "is_hex c"
    by auto
  have "parseIPv6 (join_colon gs) = finish (parse_loop (join_colon gs) initial_state)"
    unfolding cs(1) by (rule parseIPv6_hex_start [OF cs(2)])
  also have "parse_loop (join_colon gs) initial_state = Some (foldl store_group initial_state gs)"
    using gs len by (intro parse_loop_join) (auto simp: initial_state_def)
  also have "finish (Some (foldl store_group initial_state gs)) = Some (pack (parts (foldl store_group initial_state gs)))"
    by (simp add: finish_def) (simp add: initial_state_def len)
  also have "parts (foldl store_group initial_state gs) = map group_value gs"
    using len by (subst parts_foldl_store) (simp_all add: initial_state_def)
  finally show ?thesis .
qed

lemma parse_compressed:
  assumes gs: "\<forall>g\<in>set (pre @ post). hex_group g" and len: "length pre + length post < 8"
  shows "parseIPv6 (join_colon pre @ ''::'' @ join_colon post) =
         Some (pack (map group_value pre @ replicate (8 - (length pre + length post)) 0
                     @ map group_value post))"
proof -
  let ?z = "replicate (8 - (length pre + length post)) (0 :: 16 word)"
  have post: "\<forall>g\<in>set post. hex_group g" and pre: "\<forall>g\<in>set pre. hex_group g"
    using gs by auto
  have ex: "expand (map group_value pre @ map group_value post @ ?z)
        (length pre + length post) (length pre) = map group_value pre @ ?z @ map group_value post"
    using expand_below_eight [of "map group_value pre" "map group_value post"] len by simp
  show ?thesis
  proof (cases "pre = []")
    case True
    note p = this
    show ?thesis
    proof (cases "post = []")
      case True
      with p show ?thesis
        by (simp add: parseIPv6_def pack_zero)
    next
      case False
      from join_colon_head [OF post False] obtain c s where cs: "join_colon post = c # s" "is_hex c"
        by auto
      let ?st = "initial_state\<lparr>double_colon_index := 0\<rparr>"
      have "parseIPv6 (''::'' @ join_colon post) = finish (parse_loop (join_colon post) ?st)"
        using cs hex_not_space [OF cs(2)] by (intro parseIPv6_marker_start) auto
      also have "parse_loop (join_colon post) ?st = Some (foldl store_group ?st post)"
        using post len by (intro parse_loop_join) (auto simp: initial_state_def)
      also have "finish (Some (foldl store_group ?st post)) =
          Some (pack (expand (parts (foldl store_group ?st post)) (length post) 0))"
        by (simp add: finish_def) (simp add: initial_state_def)
      also have "parts (foldl store_group ?st post) = map group_value post @ ?z"
        using len p by (subst parts_foldl_store) (simp_all add: initial_state_def)
      also have "expand (map group_value post @ ?z) (length post) 0 = ?z @ map group_value post"
        using ex p by simp
      finally show ?thesis using p by simp
    qed
  next
    case False
    from join_colon_head [OF pre False] obtain c s where cs: "join_colon pre = c # s" "is_hex c"
      by auto
    let ?st = "(foldl store_group initial_state pre)\<lparr>double_colon_index := int (length pre)\<rparr>"
    have "parseIPv6 (join_colon pre @ ''::'' @ join_colon post)
        = finish (parse_loop (join_colon pre @ ''::'' @ join_colon post) initial_state)"
      unfolding cs(1) append_Cons by (rule parseIPv6_hex_start [OF cs(2)])
    also have "parse_loop (join_colon pre @ ''::'' @ join_colon post) initial_state
        = parse_loop (join_colon post) ?st"
      using parse_loop_marker [OF pre False, of initial_state "join_colon post"] len by (simp add: initial_state_def)
    also have "\<dots> = Some (foldl store_group ?st post)"
      using post len by (intro parse_loop_join) (auto simp: initial_state_def)
    also have "foldl store_group ?st post =
        (foldl store_group initial_state (pre @ post))\<lparr>double_colon_index := int (length pre)\<rparr>"
      by (simp add: foldl_store_dci)
    also have "finish (Some \<dots>) =
        Some (pack (expand (parts (foldl store_group initial_state (pre @ post)))
                           (length pre + length post) (length pre)))"
      by (simp add: finish_def) (simp add: initial_state_def)
    also have "parts (foldl store_group initial_state (pre @ post))
        = map group_value pre @ map group_value post @ ?z"
      using len by (subst parts_foldl_store) (simp_all add: initial_state_def)
    finally show ?thesis by (simp only: ex)
  qed
qed

text \<open>
  With eight groups and one marker the line is accepted as well.  The groups read after
  the marker are lost in the expansion: the key has zero in their places.  When the
  marker comes after the eighth group nothing is lost, and nothing behind the marker is
  read.  A line of nine or more groups is accepted with its first eight groups.  White
  space before the address is skipped.
\<close>

lemma parse_compressed_eight:
  assumes gs: "\<forall>g\<in>set (pre @ post). hex_group g" and len: "length pre + length post = 8"
  shows "parseIPv6 (join_colon pre @ ''::'' @ join_colon post) =
         Some (pack (map group_value pre @ replicate (length post) 0))"
proof -
  have post: "\<forall>g\<in>set post. hex_group g" and pre: "\<forall>g\<in>set pre. hex_group g"
    using gs by auto
  have ex: "expand (map group_value pre @ map group_value post) 8 (length pre)
      = map group_value pre @ replicate (length post) 0"
    using expand_at_eight [of "map group_value pre" "map group_value post"] len by simp
  show ?thesis
  proof (cases "pre = []")
    case True
    note p = this
    with len have ne: "post \<noteq> []" by auto
    from join_colon_head [OF post ne] obtain c s where cs: "join_colon post = c # s" "is_hex c"
      by auto
    let ?st = "initial_state\<lparr>double_colon_index := 0\<rparr>"
    have "parseIPv6 (''::'' @ join_colon post) = finish (parse_loop (join_colon post) ?st)"
      using cs hex_not_space [OF cs(2)] by (intro parseIPv6_marker_start) auto
    also have "parse_loop (join_colon post) ?st = Some (foldl store_group ?st post)"
      using post len by (intro parse_loop_join) (auto simp: initial_state_def)
    also have "finish (Some (foldl store_group ?st post)) =
        Some (pack (expand (parts (foldl store_group ?st post)) (length post) 0))"
      by (simp add: finish_def) (simp add: initial_state_def)
    also have "parts (foldl store_group ?st post) = map group_value post"
      using len p by (subst parts_foldl_store) (simp_all add: initial_state_def)
    also have "expand (map group_value post) (length post) 0 = replicate (length post) 0"
      using ex p len by simp
    finally show ?thesis using p by simp
  next
    case False
    from join_colon_head [OF pre False] obtain c s where cs: "join_colon pre = c # s" "is_hex c"
      by auto
    let ?st = "(foldl store_group initial_state pre)\<lparr>double_colon_index := int (length pre)\<rparr>"
    have "parseIPv6 (join_colon pre @ ''::'' @ join_colon post)
        = finish (parse_loop (join_colon pre @ ''::'' @ join_colon post) initial_state)"
      unfolding cs(1) append_Cons by (rule parseIPv6_hex_start [OF cs(2)])
    also have "parse_loop (join_colon pre @ ''::'' @ join_colon post) initial_state
        = parse_loop (join_colon post) ?st"
      using parse_loop_marker [OF pre False, of initial_state "join_colon post"] len by (simp add: initial_state_def)
    also have "\<dots> = Some (foldl store_group ?st post)"
      using post len by (intro parse_loop_join) (auto simp: initial_state_def)
    also have "foldl store_group ?st post =
        (foldl store_group initial_state (pre @ post))\<lparr>double_colon_index := int (length pre)\<rparr>"
      by (simp add: foldl_store_dci)
    also have "finish (Some \<dots>) =
        Some (pack (expand (parts (foldl store_group initial_state (pre @ post)))
                           (length pre + length post) (length pre)))"
      by (simp add: finish_def) (simp add: initial_state_def)
    also have "parts (foldl store_group initial_state (pre @ post))
        = map group_value pre @ map group_value post"
      using len by (subst parts_foldl_store) (simp_all add: initial_state_def)
    finally show ?thesis by (simp only: len ex)
  qed
qed

lemma parse_eight_then_marker:
  assumes gs: "\<forall>g\<in>set gs. hex_group g" and len: "length gs = 8"
  shows "parseIPv6 (join_colon gs @ ''::'' @ rest) = Some (pack (map group_value gs))"
proof -
  from len have ne: "gs \<noteq> []" by auto
  from join_colon_head [OF gs ne] obtain c s where cs: "join_colon gs = c # s" "is_hex c"
    by auto
  let ?st = "(foldl store_group initial_state gs)\<lparr>double_colon_index := 8\<rparr>"
  have "parseIPv6 (join_colon gs @ ''::'' @ rest)
      = finish (parse_loop (join_colon gs @ ''::'' @ rest) initial_state)"
    unfolding cs(1) append_Cons by (rule parseIPv6_hex_start [OF cs(2)])
  also have "parse_loop (join_colon gs @ ''::'' @ rest) initial_state = parse_loop rest ?st"
    using parse_loop_marker [OF gs ne, of initial_state rest] len by (simp add: initial_state_def)
  also have "\<dots> = Some ?st"
    using len by (intro parse_loop_stop) (simp add: initial_state_def)
  also have "finish (Some ?st) = Some (pack (expand (parts (foldl store_group initial_state gs)) 8 8))"
    using len by (simp add: finish_def) (simp add: initial_state_def)
  also have "expand (parts (foldl store_group initial_state gs)) 8 8
      = parts (foldl store_group initial_state gs)"
    by (simp add: expand_def)
  also have "parts (foldl store_group initial_state gs) = map group_value gs"
    using len by (subst parts_foldl_store) (simp_all add: initial_state_def)
  finally show ?thesis .
qed

lemma parse_nine_or_more:
  assumes gs: "\<forall>g\<in>set gs. hex_group g" and len: "9 \<le> length gs"
  shows "parseIPv6 (join_colon gs) = Some (pack (map group_value (take 8 gs)))"
proof -
  from len have ne: "gs \<noteq> []" by auto
  from join_colon_head [OF gs ne] obtain c s where cs: "join_colon gs = c # s" "is_hex c"
    by auto
  have d: "drop 8 gs \<noteq> []" using len by simp
  have g8: "\<forall>g\<in>set (take 8 gs). hex_group g" "\<forall>g\<in>set (drop 8 gs). hex_group g"
    using gs by (auto dest: in_set_takeD in_set_dropD)
  have split: "join_colon gs = colon_each (take 8 gs) @ join_colon (drop 8 gs)"
    using join_colon_append [OF d, of "take 8 gs"] by simp
  have "parseIPv6 (join_colon gs) = finish (parse_loop (join_colon gs) initial_state)"
    unfolding cs(1) by (rule parseIPv6_hex_start [OF cs(2)])
  also have "parse_loop (join_colon gs) initial_state
      = parse_loop (join_colon (drop 8 gs)) (foldl store_group initial_state (take 8 gs))"
    unfolding split
    using g8 len by (intro parse_loop_colon_each no_colon_ahead_join) (auto simp: initial_state_def)
  also have "\<dots> = Some (foldl store_group initial_state (take 8 gs))"
    using len by (intro parse_loop_stop) (simp add: initial_state_def)
  also have "finish (Some (foldl store_group initial_state (take 8 gs)))
      = Some (pack (parts (foldl store_group initial_state (take 8 gs))))"
    using len by (simp add: finish_def) (simp add: initial_state_def)
  also have "parts (foldl store_group initial_state (take 8 gs)) = map group_value (take 8 gs)"
    using len by (subst parts_foldl_store) (simp_all add: initial_state_def)
  finally show ?thesis .
qed

lemma parseIPv6_leading_space:
  "list_all isspace lead \<Longrightarrow> parseIPv6 (lead @ s) = parseIPv6 s"
  by (simp add: parseIPv6_def list_all_iff dropWhile_append2)

lemma group_value_fun: "group_value = (\<lambda>g. word_of_nat (hex_value g))"
  by (rule ext) (simp add: group_value_def)

text \<open>Every well-formed text form is accepted, with the key of the address it denotes.\<close>

lemma parse_well_formed:
  assumes "well_formed s"
  shows "parseIPv6 (render s) = Some (key_of_groups (groups_of s))"
proof (cases s)
  case (Full gs)
  with assms have "\<forall>g\<in>set gs. hex_group g" and "length gs = 8"
    by (auto simp: list_all_iff wf_group_def hex_group_def)
  from parse_full_form [OF this] show ?thesis
    using Full by (simp add: group_value_fun comp_def key_of_groups_def)
next
  case (Compressed pre post)
  with assms have "\<forall>g\<in>set (pre @ post). hex_group g" and "length pre + length post < 8"
    by (auto simp: list_all_iff wf_group_def hex_group_def)
  from parse_compressed [OF this] show ?thesis
    using Compressed by (simp add: group_value_fun comp_def key_of_groups_def)
qed

text \<open>
  So two well-formed text forms that denote the same eight groups get the same key.
\<close>

lemma well_formed_spellings_same_key:
  assumes "well_formed a" and "well_formed b" and "groups_of a = groups_of b"
  shows "parseIPv6 (render a) = parseIPv6 (render b)"
  using parse_well_formed [OF assms(1)] parse_well_formed [OF assms(2)] assms(3)
  by simp

section \<open>Claims about the parser\<close>

lemma word_of_nat_mod16: "(word_of_nat (n mod 2 ^ 16) :: 16 word) = word_of_nat n"
  by (simp add: word_of_nat_eq_iff take_bit_eq_mod)

lemma group_value_mod_fun: "(\<lambda>g. word_of_nat (hex_value g mod 2 ^ 16)) = group_value"
  by (rule ext) (simp only: word_of_nat_mod16 group_value_def)

text \<open>
  Claim C5.  The value stored for a group is the number its digits denote modulo
  \<open>2\<^sup>1\<^sup>6\<close>, however many digits the group has.  The inner loop reads every digit
  of a run of one or more hexadecimal digits \<open>g\<close>, up to the first character \<open>rest\<close>
  starts with that is not one: it ends with \<^verbatim>\<open>has_digits\<close> set and the position at
  \<open>rest\<close>, and the low 16 bits of its accumulator, which is what
  \<^verbatim>\<open>static_cast<uint16_t>(val)\<close> stores, are the number \<open>g\<close> denotes modulo \<open>2\<^sup>1\<^sup>6\<close>, at
  most \<open>0xFFFF\<close>.  No length is checked: a line of eight groups of any lengths is
  accepted, with each group reduced in this way.
\<close>

theorem group_is_accumulation_mod_2_16:
  assumes "hex_group g" and "no_hex_ahead rest"
  shows "(\<exists>val. read_hex 0 False (g @ rest) = (val, True, rest) \<and>
            unat (ucast val :: 16 word) = hex_value g mod 2 ^ 16 \<and>
            unat (ucast val :: 16 word) \<le> 0xFFFF) \<and>
         (\<forall>gs. list_all hex_group gs \<and> length gs = 8 \<longrightarrow>
            parseIPv6 (join_colon gs)
              = Some (pack (map (\<lambda>g. word_of_nat (hex_value g mod 2 ^ 16)) gs)))"
proof -
  from assms(1) have hx: "list_all is_hex g" and ne: "g \<noteq> []"
    by (simp_all add: hex_group_def)
  from read_hex_group [OF hx assms(2)] ne obtain val where
    r: "read_hex 0 False (g @ rest) = (val, True, rest)"
    and v: "(ucast val :: 16 word) = group_value g"
    by auto
  have "hex_value g mod 2 ^ 16 < 2 ^ 16"
    by simp
  then have "hex_value g mod 2 ^ 16 \<le> 0xFFFF"
    by simp
  with r v have first: "\<exists>val. read_hex 0 False (g @ rest) = (val, True, rest) \<and>
            unat (ucast val :: 16 word) = hex_value g mod 2 ^ 16 \<and>
            unat (ucast val :: 16 word) \<le> 0xFFFF"
    by (auto simp: unat_group_value)
  have "parseIPv6 (join_colon gs)
      = Some (pack (map (\<lambda>g. word_of_nat (hex_value g mod 2 ^ 16)) gs))"
    if "list_all hex_group gs" "length gs = 8" for gs
  proof -
    from that(1) have "\<forall>g\<in>set gs. hex_group g"
      by (simp add: list_all_iff)
    from parse_full_form [OF this that(2)] show ?thesis
      by (simp only: group_value_mod_fun)
  qed
  with first show ?thesis
    by blast
qed

theorem group_is_accumulation_mod_2_16_witness:
  "hex_group ''12345'' \<and> no_hex_ahead '':0'' \<and>
   snd (read_hex 0 False ''12345:0'') = (True, '':0'') \<and>
   unat (ucast (fst (read_hex 0 False ''12345:0'')) :: 16 word) = 0x2345 \<and>
   parseIPv6 ''12345:0:0:0:0:0:0:1'' = Some (pack [0x2345, 0, 0, 0, 0, 0, 0, 1])"
proof -
  have g: "hex_group ''12345''" and n: "no_hex_ahead '':0''"
    by (simp_all add: hex_group_def is_hex_def hexDigitToInt_def no_hex_ahead_def)
  have h: "hex_value ''12345'' mod 2 ^ 16 = 0x2345"
    by (simp add: hex_value_def hexDigitToInt_def)
  note t = group_is_accumulation_mod_2_16 [OF g n]
  from t obtain val where r: "read_hex 0 False (''12345'' @ '':0'') = (val, True, '':0'')"
    and u: "unat (ucast val :: 16 word) = hex_value ''12345'' mod 2 ^ 16"
    by blast
  from r have r': "read_hex 0 False ''12345:0'' = (val, True, '':0'')"
    by (simp only: append_Cons append_Nil)
  from u have u': "unat (ucast val :: 16 word) = 0x2345"
    unfolding h .
  have a: "snd (read_hex 0 False ''12345:0'') = (True, '':0'')"
    "unat (ucast (fst (read_hex 0 False ''12345:0'')) :: 16 word) = 0x2345"
    by (simp_all only: r' fst_conv snd_conv u')
  have l: "list_all hex_group [''12345'', ''0'', ''0'', ''0'', ''0'', ''0'', ''0'', ''1'']"
    by (simp add: hex_group_def is_hex_def hexDigitToInt_def)
  from t have "list_all hex_group [''12345'', ''0'', ''0'', ''0'', ''0'', ''0'', ''0'', ''1''] \<and>
      length [''12345'', ''0'', ''0'', ''0'', ''0'', ''0'', ''0'', ''1''] = 8 \<longrightarrow>
      parseIPv6 (join_colon [''12345'', ''0'', ''0'', ''0'', ''0'', ''0'', ''0'', ''1''])
        = Some (pack (map (\<lambda>g. word_of_nat (hex_value g mod 2 ^ 16))
             [''12345'', ''0'', ''0'', ''0'', ''0'', ''0'', ''0'', ''1'']))"
    by blast
  with l have "parseIPv6 ''12345:0:0:0:0:0:0:1'' = Some (pack [0x2345, 0, 0, 0, 0, 0, 0, 1])"
    by (simp add: hex_value_def hexDigitToInt_def)
  with g n a show ?thesis
    by simp
qed

text \<open>
  Claim C9.  A line of nine or more groups with single colons between them, each
  group a run of one or more hexadecimal digits, is accepted.  Its key is the one
  packed from the first eight groups: the high half is made of the first four groups
  and the low half of the next four, each group the number its digits denote modulo
  \<open>2\<^sup>1\<^sup>6\<close>, the first of the four in the most significant sixteen bits.  The rest of
  the line is not looked at: the line of the first eight groups alone gets the same
  key.
\<close>

theorem nine_or_more_groups_accepted:
  assumes "list_all hex_group gs" and len: "9 \<le> length gs"
  shows "\<exists>key. parseIPv6 (join_colon gs) = Some key \<and>
           key = pack (map group_value (take 8 gs)) \<and>
           unat (hi key)
             = (hex_value (gs ! 0) mod 2 ^ 16) * 2 ^ 48 + (hex_value (gs ! 1) mod 2 ^ 16) * 2 ^ 32
               + (hex_value (gs ! 2) mod 2 ^ 16) * 2 ^ 16 + hex_value (gs ! 3) mod 2 ^ 16 \<and>
           unat (lo key)
             = (hex_value (gs ! 4) mod 2 ^ 16) * 2 ^ 48 + (hex_value (gs ! 5) mod 2 ^ 16) * 2 ^ 32
               + (hex_value (gs ! 6) mod 2 ^ 16) * 2 ^ 16 + hex_value (gs ! 7) mod 2 ^ 16 \<and>
           parseIPv6 (join_colon (take 8 gs)) = Some key"
proof -
  from assms(1) have gs: "\<forall>g\<in>set gs. hex_group g"
    by (simp add: list_all_iff)
  then have g8: "\<forall>g\<in>set (take 8 gs). hex_group g"
    by (auto dest: in_set_takeD)
  from len have l8: "8 \<le> length gs" "length (take 8 gs) = 8"
    by simp_all
  have "parseIPv6 (join_colon (take 8 gs)) = Some (pack (map group_value (take 8 gs)))"
    using parse_full_form [OF g8 l8(2)] by simp
  with parse_nine_or_more [OF gs len] unat_pack_groups [OF l8(1)] show ?thesis
    by blast
qed

theorem nine_or_more_groups_accepted_witness:
  "list_all hex_group (map (\<lambda>c. [c]) ''123456789'') \<and>
   join_colon (map (\<lambda>c. [c]) ''123456789'') = ''1:2:3:4:5:6:7:8:9'' \<and>
   parseIPv6 ''1:2:3:4:5:6:7:8:9'' = Some \<lparr> hi = 0x0001000200030004, lo = 0x0005000600070008 \<rparr> \<and>
   parseIPv6 ''1:2:3:4:5:6:7:8'' = Some \<lparr> hi = 0x0001000200030004, lo = 0x0005000600070008 \<rparr>"
proof -
  have l: "list_all hex_group (map (\<lambda>c. [c]) ''123456789'')"
    by (simp add: hex_group_def is_hex_def hexDigitToInt_def)
  have j: "join_colon (map (\<lambda>c. [c]) ''123456789'') = ''1:2:3:4:5:6:7:8:9''"
    "join_colon (take 8 (map (\<lambda>c. [c]) ''123456789'')) = ''1:2:3:4:5:6:7:8''"
    by simp_all
  from nine_or_more_groups_accepted [OF l] obtain key where
    p: "parseIPv6 (join_colon (map (\<lambda>c. [c]) ''123456789'')) = Some key"
    and h: "unat (hi key) = 0x0001000200030004" and o: "unat (lo key) = 0x0005000600070008"
    and e: "parseIPv6 (join_colon (take 8 (map (\<lambda>c. [c]) ''123456789''))) = Some key"
    by (auto simp: hex_value_def hexDigitToInt_def)
  from h have "word_of_nat (unat (hi key)) = (0x0001000200030004 :: 64 word)"
    by (simp only: of_nat_numeral)
  then have h': "hi key = 0x0001000200030004"
    by simp
  from o have "word_of_nat (unat (lo key)) = (0x0005000600070008 :: 64 word)"
    by (simp only: of_nat_numeral)
  then have o': "lo key = 0x0005000600070008"
    by simp
  from h' o' have k: "key = \<lparr> hi = 0x0001000200030004, lo = 0x0005000600070008 \<rparr>"
    by (cases key) simp
  from p e show ?thesis
    unfolding j k using l by simp
qed

text \<open>
  Claim C4.  The parser is a function of the line alone, so the same line always gives
  the same key, and two text forms of one address are to get one key.  They do when the
  marker stands for one or more groups of zero (\<open>well_formed_spellings_same_key\<close>):
  \<^verbatim>\<open>::1\<close> and \<^verbatim>\<open>0:0:0:0:0:0:0:1\<close> get one key, and so do \<^verbatim>\<open>2001:db8::1\<close> and
  \<^verbatim>\<open>2001:0db8:0000:0000:0000:0000:0000:0001\<close>.  The grammar of the specification has up
  to eight groups beside the marker, which then stands for as many groups of zero as are
  needed to reach eight: with eight groups, for none.  So \<^verbatim>\<open>1::2:3:4:5:6:7:8\<close> and
  \<^verbatim>\<open>1:2:3:4:5:6:7:8\<close> are two text forms of one address.  They get two keys: the
  expansion of the marker loses the groups read after it when eight groups were read
  (\<open>parse_compressed_eight\<close>), which is the defect that claim C2 is about, and the first
  line is given the key of \<^verbatim>\<open>1:0:0:0:0:0:0:0\<close>.
\<close>

theorem marker_beside_eight_groups_gives_another_key:
  "render (Full (map (\<lambda>c. [c]) ''12345678'')) = ''1:2:3:4:5:6:7:8'' \<and>
   render (Compressed [''1''] (map (\<lambda>c. [c]) ''2345678'')) = ''1::2:3:4:5:6:7:8'' \<and>
   groups_of (Full (map (\<lambda>c. [c]) ''12345678'')) = [1, 2, 3, 4, 5, 6, 7, 8] \<and>
   groups_of (Compressed [''1''] (map (\<lambda>c. [c]) ''2345678'')) = [1, 2, 3, 4, 5, 6, 7, 8] \<and>
   parseIPv6 ''1:2:3:4:5:6:7:8'' = Some \<lparr> hi = 0x0001000200030004, lo = 0x0005000600070008 \<rparr> \<and>
   parseIPv6 ''1::2:3:4:5:6:7:8'' = Some \<lparr> hi = 0x0001000000000000, lo = 0 \<rparr>"
  by code_simp

text \<open>
  Not every line with a second \<^verbatim>\<open>::\<close> in it is rejected, as claim C6 is stated.  The
  loop ends when eight groups are stored.  In the line \<^verbatim>\<open>1:2:3:4:5:6:7:8::9::\<close> the
  first marker is read with the eighth group and recorded; the second marker is never
  read, and the line is accepted with the key of its first eight groups.
\<close>

theorem second_marker_after_eighth_group_counterexample:
  "parseIPv6 ''1:2:3:4:5:6:7:8::9::'' = Some \<lparr> hi = 0x0001000200030004, lo = 0x0005000600070008 \<rparr>"
  by code_simp

text \<open>
  Claim C6, as the code has it.  A line is rejected when it is made of white space
  \<open>lead\<close>, which may be empty, a list of groups \<open>pre\<close>, the marker, a list of groups
  \<open>mid\<close>, the marker again and any text \<open>rest\<close>, where either list may be empty, the
  groups are runs of one or more hexadecimal digits with single colons between them, and
  \<open>pre\<close> and \<open>mid\<close> have at most eight groups together, at most seven when \<open>mid\<close> is
  empty.  A line of eight groups followed by the marker is accepted whatever text \<open>tail\<close>
  comes after the marker, with the key that the eight groups alone get: a second marker
  in \<open>tail\<close> does not reject the line.
\<close>

theorem second_marker_rejected:
  "(list_all isspace lead \<and> list_all hex_group pre \<and> list_all hex_group mid \<and>
    length pre + length mid \<le> 8 \<and> (mid = [] \<longrightarrow> length pre < 8) \<longrightarrow>
      parseIPv6 (lead @ join_colon pre @ ''::'' @ join_colon mid @ ''::'' @ rest) = None) \<and>
   (list_all isspace lead \<and> list_all hex_group gs \<and> length gs = 8 \<longrightarrow>
      parseIPv6 (lead @ join_colon gs @ ''::'' @ tail) = parseIPv6 (join_colon gs) \<and>
      parseIPv6 (join_colon gs) = Some (pack (map group_value gs)))"
proof -
  have first: "parseIPv6 (lead @ join_colon pre @ ''::'' @ join_colon mid @ ''::'' @ rest) = None"
    if sp: "list_all isspace lead" and h: "list_all hex_group pre" "list_all hex_group mid"
      and len: "length pre + length mid \<le> 8" "mid = [] \<longrightarrow> length pre < 8"
  proof -
    from h have gs: "\<forall>g\<in>set (pre @ mid). hex_group g"
      by (auto simp: list_all_iff)
    have mid: "\<forall>g\<in>set mid. hex_group g" and pre: "\<forall>g\<in>set pre. hex_group g"
      using gs by auto
    let ?tail = "join_colon mid @ ''::'' @ rest"
    have "parseIPv6 (join_colon pre @ ''::'' @ ?tail) = None"
    proof (cases "pre = []")
      case True
      have ns: "?tail \<noteq> []" "\<not> isspace (hd ?tail)"
      proof -
        show "?tail \<noteq> []" by simp
        show "\<not> isspace (hd ?tail)"
        proof (cases "mid = []")
          case True
          then show ?thesis by simp
        next
          case False
          from join_colon_head [OF mid False] obtain c s where "join_colon mid = c # s" "is_hex c"
            by auto
          then show ?thesis by (simp add: hex_not_space)
        qed
      qed
      have "parseIPv6 (''::'' @ ?tail) = finish (parse_loop ?tail (initial_state\<lparr>double_colon_index := 0\<rparr>))"
        by (rule parseIPv6_marker_start [OF ns])
      also have "parse_loop ?tail (initial_state\<lparr>double_colon_index := 0\<rparr>) = None"
        using mid len True by (intro parse_loop_second_marker) (auto simp: initial_state_def)
      finally show ?thesis using True by (simp add: finish_def)
    next
      case False
      from join_colon_head [OF pre False] obtain c s where cs: "join_colon pre = c # s" "is_hex c"
        by auto
      let ?st = "(foldl store_group initial_state pre)\<lparr>double_colon_index := int (length pre)\<rparr>"
      have "parseIPv6 (join_colon pre @ ''::'' @ ?tail)
          = finish (parse_loop (join_colon pre @ ''::'' @ ?tail) initial_state)"
        unfolding cs(1) append_Cons by (rule parseIPv6_hex_start [OF cs(2)])
      also have "parse_loop (join_colon pre @ ''::'' @ ?tail) initial_state = parse_loop ?tail ?st"
        using parse_loop_marker [OF pre False, of initial_state ?tail] len by (simp add: initial_state_def)
      also have "\<dots> = None"
        using mid len by (intro parse_loop_second_marker) (auto simp: initial_state_def)
      finally show ?thesis by (simp add: finish_def)
    qed
    then show ?thesis
      by (simp only: parseIPv6_leading_space [OF sp])
  qed
  have second: "parseIPv6 (lead @ join_colon gs @ ''::'' @ tail) = parseIPv6 (join_colon gs) \<and>
      parseIPv6 (join_colon gs) = Some (pack (map group_value gs))"
    if sp: "list_all isspace lead" and h: "list_all hex_group gs" "length gs = 8"
  proof -
    from h(1) have gs: "\<forall>g\<in>set gs. hex_group g"
      by (simp add: list_all_iff)
    from parse_eight_then_marker [OF gs h(2), of tail] parse_full_form [OF gs h(2)]
    show ?thesis
      by (simp only: parseIPv6_leading_space [OF sp])
  qed
  from first second show ?thesis
    by blast
qed

theorem second_marker_rejected_witness:
  "list_all hex_group [''1''] \<and> list_all hex_group [''2''] \<and> list_all isspace '' '' \<and>
   parseIPv6 ''1::2::3'' = None \<and> parseIPv6 ''::::'' = None \<and>
   parseIPv6 '' 1:2:3:4::5:6:7:8::'' = None \<and>
   list_all hex_group (map (\<lambda>c. [c]) ''abcdef12'') \<and>
   parseIPv6 ''a:b:c:d:e:f:1:2::3::4''
     = Some \<lparr> hi = 0x000a000b000c000d, lo = 0x000e000f00010002 \<rparr> \<and>
   parseIPv6 ''a:b:c:d:e:f:1:2''
     = Some \<lparr> hi = 0x000a000b000c000d, lo = 0x000e000f00010002 \<rparr>"
proof -
  have l: "list_all hex_group [''1'']" "list_all hex_group [''2'']"
    "list_all hex_group [''1'', ''2'', ''3'', ''4'']" "list_all hex_group [''5'', ''6'', ''7'', ''8'']"
    "list_all hex_group []" "list_all hex_group (map (\<lambda>c. [c]) ''abcdef12'')"
    by (simp_all add: hex_group_def is_hex_def hexDigitToInt_def)
  have s: "list_all isspace []" "list_all isspace '' ''"
    by (simp_all add: isspace_def)
  note t = second_marker_rejected
  from t [of "[]" "[''1'']" "[''2'']" "''3''", THEN conjunct1] l(1,2) s(1)
  have "parseIPv6 ''1::2::3'' = None"
    by simp
  moreover from t [of "[]" "[]" "[]" "[]", THEN conjunct1] l(5) s(1)
  have "parseIPv6 ''::::'' = None"
    by simp
  moreover from t [of "'' ''" "[''1'', ''2'', ''3'', ''4'']" "[''5'', ''6'', ''7'', ''8'']" "[]", THEN conjunct1]
    l(3,4) s(2)
  have "parseIPv6 '' 1:2:3:4::5:6:7:8::'' = None"
    by simp
  moreover from t [of "[]" _ _ _ "map (\<lambda>c. [c]) ''abcdef12''" "''3::4''", THEN conjunct2] l(6) s(1)
  have "parseIPv6 ''a:b:c:d:e:f:1:2::3::4''
      = Some \<lparr> hi = 0x000a000b000c000d, lo = 0x000e000f00010002 \<rparr> \<and>
    parseIPv6 ''a:b:c:d:e:f:1:2''
      = Some \<lparr> hi = 0x000a000b000c000d, lo = 0x000e000f00010002 \<rparr>"
    by (simp add: group_value_def hex_value_def hexDigitToInt_def pack_def)
  ultimately show ?thesis
    using l s by simp
qed

text \<open>
  Claim C2.  The expansion of \<^verbatim>\<open>::\<close> is meant to put the groups read after the marker
  into the last slots of the array and to fill the slots between with zero, and with
  fewer than eight groups read it does (\<open>expand_below_eight\<close>, \<open>parse_compressed\<close>).  With
  eight groups read it does not.  The line \<^verbatim>\<open>1::2:3:4:5:6:7:8\<close> is accepted with eight
  groups read, seven of them after the marker; \<^verbatim>\<open>parts_parsed - 1 - k\<close> is then
  \<^verbatim>\<open>7 - k\<close>, so every step of the loop copies a slot onto itself and sets it to zero.
  The key that comes out has the groups \<open>1, 0, 0, 0, 0, 0, 0, 0\<close>: the seven groups after
  the marker are lost.
\<close>

theorem expansion_of_eight_groups_loses_them:
  "parseIPv6 ''1::2:3:4:5:6:7:8'' = Some \<lparr> hi = 0x0001000000000000, lo = 0 \<rparr>"
  by code_simp

section \<open>Properties of the pipeline\<close>

subsection \<open>The writer\<close>

text \<open>
  What a bucket holds, on disk and in memory together, grows by the keys routed to it and
  is not changed by a flush, whenever the flush happens.  After the last flush nothing
  is left in memory: the file of a bucket holds the accepted keys whose top byte is the
  number of the bucket, in the order of their lines.
\<close>

lemma ingest_route: "ingest lines w = route (accepted_keys lines) w"
  by (induction lines arbitrary: w)
     (auto simp: route_def accepted_keys_def List.map_filter_simps split: option.splits)

lemma held_flush [simp]: "held (flush i w) b = held w b"
  by (simp add: held_def flush_def)

lemma held_add: "held (add i k w) b = (if b = unat i then held w b @ [k] else held w b)"
  by (simp add: add_def Let_def) (simp add: held_def)

lemma held_route:
  "held (route ks w) b = held w b @ filter (\<lambda>k. unat (bucketIdx k) = b) ks"
  unfolding route_def
  by (induction ks arbitrary: w) (auto simp: held_add)

lemma buffers_flush: "buffers (flush i w) b = (if b = i then [] else buffers w b)"
  by (simp add: flush_def)

lemma held_flush_all: "held (foldl (\<lambda>w i. flush i w) w bs) b = held w b"
  by (induction bs arbitrary: w) simp_all

lemma buffers_flush_all:
  "buffers (foldl (\<lambda>w i. flush i w) w bs) b = (if b \<in> set bs then [] else buffers w b)"
  by (induction bs arbitrary: w) (auto simp: buffers_flush)

lemma streams_flushAllAndClose:
  assumes "b < NUM_BUCKETS"
  shows "streams (flushAllAndClose w) b = held w b"
proof -
  have "buffers (flushAllAndClose w) b = []"
    using assms by (simp add: flushAllAndClose_def buffers_flush_all)
  moreover have "held (flushAllAndClose w) b = held w b"
    by (simp add: flushAllAndClose_def held_flush_all)
  ultimately show ?thesis
    by (simp add: held_def)
qed

lemma bucketIdx_less: "unat (bucketIdx k) < NUM_BUCKETS"
  using unsigned_less [of "bucketIdx k"] by (simp add: NUM_BUCKETS_def)

lemma bucketIdx_top_byte: "unat (bucketIdx k) = unat (hi k) div 2 ^ 56"
proof -
  have m: "(0xFF :: 64 word) = mask 8"
    by (simp add: mask_eq_exp_minus_1)
  have "bucketIdx k = ucast (drop_bit 56 (hi k))"
    unfolding bucketIdx_def m
    by (rule bit_eqI) (auto simp: bit_simps)
  then have "unat (bucketIdx k) = take_bit 8 (unat (drop_bit 56 (hi k)))"
    by (simp add: unsigned_ucast_eq)
  also have "unat (drop_bit 56 (hi k)) = unat (hi k) div 2 ^ 56"
    by (simp only: unat_drop_bit_eq) (simp only: drop_bit_eq_div)
  also have "take_bit 8 (unat (hi k) div 2 ^ 56) = unat (hi k) div 2 ^ 56"
  proof -
    have "unat (hi k) < 2 ^ 64" using unsigned_less [of "hi k"] by simp
    then have "unat (hi k) div 2 ^ 56 < 2 ^ 8"
      by (simp add: less_mult_imp_div_less)
    then show ?thesis by (simp add: take_bit_nat_eq_self)
  qed
  finally show ?thesis .
qed

lemma streams_partitioned:
  "b < NUM_BUCKETS \<Longrightarrow>
   streams (partitioned lines) b = filter (\<lambda>k. unat (bucketIdx k) = b) (accepted_keys lines)"
  by (simp add: partitioned_def ingest_route streams_flushAllAndClose held_route) (simp add: held_def)

lemma openAll_ok:
  "(\<forall>b<NUM_BUCKETS. can_create b) \<Longrightarrow>
   openAll can_create = Inr \<lparr> streams = (\<lambda>i. []), buffers = (\<lambda>i. []) \<rparr>"
  by (auto simp: openAll_def find_None_iff split: option.splits)

lemma openAll_fail:
  "b < NUM_BUCKETS \<Longrightarrow> \<not> can_create b \<Longrightarrow> \<exists>i. openAll can_create = Inl i"
  by (auto simp: openAll_def find_None_iff split: option.splits)

subsection \<open>Sorting and counting\<close>

text \<open>
  \<^verbatim>\<open>operator<\<close> is the order of the keys as numbers of 128 bits, and \<^verbatim>\<open>operator==\<close>
  is equality.  After sorting, equal keys are neighbours, so what \<^verbatim>\<open>std::unique\<close>
  leaves is free of repetitions: its length is the number of distinct keys.
\<close>

lemma uint128_eq_iff: "uint128_eq a b \<longleftrightarrow> a = b"
  by (cases a, cases b) (auto simp: uint128_eq_def)

lemma key_nat_inj: "key_nat a = key_nat b \<longleftrightarrow> a = b"
proof
  assume e: "key_nat a = key_nat b"
  have la: "unat (lo a) < 2 ^ 64" and lb: "unat (lo b) < 2 ^ 64"
    using unsigned_less [of "lo a"] unsigned_less [of "lo b"] by simp_all
  from e have "(unat (hi a) * 2 ^ 64 + unat (lo a)) div 2 ^ 64 = (unat (hi b) * 2 ^ 64 + unat (lo b)) div 2 ^ 64"
    and "(unat (hi a) * 2 ^ 64 + unat (lo a)) mod 2 ^ 64 = (unat (hi b) * 2 ^ 64 + unat (lo b)) mod 2 ^ 64"
    by (simp_all add: key_nat_def)
  with la lb have "unat (hi a) = unat (hi b)" "unat (lo a) = unat (lo b)"
    by simp_all
  then show "a = b"
    by (cases a, cases b) (simp add: word_unat_eq_iff)
qed simp

lemma uint128_less_iff: "uint128_less a b \<longleftrightarrow> key_nat a < key_nat b"
proof -
  have la: "unat (lo a) < 2 ^ 64" and lb: "unat (lo b) < 2 ^ 64"
    using unsigned_less [of "lo a"] unsigned_less [of "lo b"] by simp_all
  show ?thesis
  proof (cases "hi a = hi b")
    case True
    then show ?thesis by (simp add: uint128_less_def key_nat_def word_less_nat_alt)
  next
    case False
    then have ne: "unat (hi a) \<noteq> unat (hi b)" by (simp add: word_unat_eq_iff)
    show ?thesis
    proof (cases "unat (hi a) < unat (hi b)")
      case True
      then have "unat (hi a) + 1 \<le> unat (hi b)" by simp
      then have "(unat (hi a) + 1) * 2 ^ 64 \<le> unat (hi b) * 2 ^ 64"
        by (rule mult_le_mono1)
      with la True False show ?thesis
        by (simp add: uint128_less_def key_nat_def word_less_nat_alt)
    next
      case f: False
      with ne have "unat (hi b) + 1 \<le> unat (hi a)" by simp
      then have "(unat (hi b) + 1) * 2 ^ 64 \<le> unat (hi a) * 2 ^ 64"
        by (rule mult_le_mono1)
      with lb f False show ?thesis
        by (simp add: uint128_less_def key_nat_def word_less_nat_alt)
    qed
  qed
qed

lemma set_insert_key [simp]: "set (insert_key x xs) = insert x (set xs)"
  by (induction xs) auto

lemma set_std_sort [simp]: "set (std_sort xs) = set xs"
  by (induction xs) (simp_all add: std_sort_def)

lemma sorted_insert_key:
  "sorted_wrt (\<lambda>a b. key_nat a \<le> key_nat b) xs \<Longrightarrow>
   sorted_wrt (\<lambda>a b. key_nat a \<le> key_nat b) (insert_key x xs)"
  by (induction xs) (auto simp: uint128_less_iff)

lemma sorted_std_sort: "sorted_wrt (\<lambda>a b. key_nat a \<le> key_nat b) (std_sort xs)"
  by (induction xs) (simp_all add: std_sort_def sorted_insert_key)

lemma set_std_unique [simp]: "set (std_unique xs) = set xs"
  by (induction xs rule: std_unique.induct) (auto simp: uint128_eq_iff)

lemma strict_std_unique:
  "sorted_wrt (\<lambda>a b. key_nat a \<le> key_nat b) xs \<Longrightarrow>
   sorted_wrt (\<lambda>a b. key_nat a < key_nat b) (std_unique xs)"
proof (induction xs rule: std_unique.induct)
  case (3 x y ys)
  show ?case
  proof (cases "x = y")
    case True
    with 3 show ?thesis by (simp add: uint128_eq_iff)
  next
    case False
    then have "key_nat x \<noteq> key_nat y" by (simp add: key_nat_inj)
    with 3 False show ?thesis
      by (auto simp: uint128_eq_iff)
  qed
qed simp_all

lemma distinct_std_unique:
  assumes "sorted_wrt (\<lambda>a b. key_nat a \<le> key_nat b) xs"
  shows "distinct (std_unique xs)"
proof -
  have "sorted_wrt (\<lambda>a b. a \<noteq> b) (std_unique xs)"
    by (rule sorted_wrt_mono_rel [OF _ strict_std_unique [OF assms]]) auto
  then show ?thesis
    by (simp add: distinct_conv_nth sorted_wrt_iff_nth_less) (metis nat_neq_iff)
qed

lemma count_unique: "length (std_unique (std_sort ks)) = card (set ks)"
proof -
  have "distinct (std_unique (std_sort ks))"
    by (rule distinct_std_unique [OF sorted_std_sort])
  from distinct_card [OF this] show ?thesis by simp
qed

subsection \<open>The second phase\<close>

text \<open>
  Processing a bucket adds the number of distinct keys of its file to the counter,
  removes the file and leaves the other files alone.  Over all buckets the counts add
  up to the number of distinct keys of the input.
\<close>

lemma processBucket_total:
  "total_unique_count (processBucket b st)
   = total_unique_count st + word_of_nat (bucket_count (files st b))"
  by (cases "files st b")
     (auto simp: processBucket_def bucket_count_def Let_def count_unique)

lemma processBucket_files:
  "b' \<noteq> b \<Longrightarrow> files (processBucket b st) b' = files st b'"
  by (auto simp: processBucket_def Let_def split: option.splits)

lemma processBucket_own_file: "files (processBucket b st) b = None"
  by (auto simp: processBucket_def Let_def split: option.splits)

lemma reduce_total:
  "distinct bs \<Longrightarrow>
   total_unique_count (foldl (\<lambda>st b. processBucket b st) st bs)
   = total_unique_count st + word_of_nat (\<Sum>b\<leftarrow>bs. bucket_count (files st b))"
proof (induction bs arbitrary: st)
  case Nil
  then show ?case by simp
next
  case (Cons b bs)
  have "files (processBucket b st) b' = files st b'" if "b' \<in> set bs" for b'
    using that Cons.prems by (intro processBucket_files) auto
  then have m: "map (\<lambda>b'. bucket_count (files (processBucket b st) b')) bs
      = map (\<lambda>b'. bucket_count (files st b')) bs"
    by (intro map_cong refl) simp
  have "total_unique_count (foldl (\<lambda>st b. processBucket b st) st (b # bs))
      = total_unique_count (processBucket b st)
        + word_of_nat (\<Sum>b'\<leftarrow>bs. bucket_count (files (processBucket b st) b'))"
    using Cons.prems by (simp add: Cons.IH)
  also have "\<dots> = total_unique_count st + word_of_nat (bucket_count (files st b))
        + word_of_nat (\<Sum>b'\<leftarrow>bs. bucket_count (files st b'))"
    unfolding m processBucket_total ..
  finally show ?case
    by simp
qed

lemma fibres_card:
  "(\<Sum>b\<leftarrow>[0 ..< NUM_BUCKETS]. card (set (filter (\<lambda>k. unat (bucketIdx k) = b) ks))) = card (set ks)"
proof -
  have "(\<Sum>b\<in>{0 ..< NUM_BUCKETS}. sum (\<lambda>_. 1::nat) {k \<in> set ks. unat (bucketIdx k) = b})
      = sum (\<lambda>_. 1) (set ks)"
    by (rule sum.group) (auto simp: bucketIdx_less)
  then have "(\<Sum>b\<in>set [0 ..< NUM_BUCKETS]. card {k \<in> set ks. unat (bucketIdx k) = b}) = card (set ks)"
    by simp
  then show ?thesis
    unfolding sum_set_upt_conv_sum_list_nat by simp
qed

lemma reduce_all_total:
  "total_unique_count (reduce_all \<lparr> files = written_files (flushAllAndClose (route ks
        \<lparr> streams = (\<lambda>i. []), buffers = (\<lambda>i. []) \<rparr>)), total_unique_count = 0, contents_read = [] \<rparr>)
   = word_of_nat (card (set ks))"
proof -
  let ?w = "flushAllAndClose (route ks \<lparr> streams = (\<lambda>i. []), buffers = (\<lambda>i. []) \<rparr>)"
  have f: "b < NUM_BUCKETS \<Longrightarrow> streams ?w b = filter (\<lambda>k. unat (bucketIdx k) = b) ks" for b
    by (simp add: streams_flushAllAndClose held_route) (simp add: held_def)
  have m: "map (\<lambda>b. bucket_count (written_files ?w b)) [0 ..< NUM_BUCKETS]
      = map (\<lambda>b. card (set (filter (\<lambda>k. unat (bucketIdx k) = b) ks))) [0 ..< NUM_BUCKETS]"
    by (intro map_cong refl) (simp add: written_files_def bucket_count_def f)
  have "total_unique_count (reduce_all \<lparr> files = written_files ?w, total_unique_count = 0,
          contents_read = [] \<rparr>)
      = word_of_nat (\<Sum>b\<leftarrow>[0 ..< NUM_BUCKETS]. bucket_count (written_files ?w b))"
    unfolding reduce_all_def by (subst reduce_total) simp_all
  also have "\<dots> = word_of_nat (card (set ks))"
    unfolding m fibres_card ..
  finally show ?thesis .
qed

subsection \<open>The program as a whole\<close>

lemma length_getlines: "length (getlines s) \<le> length s"
proof (induction s rule: getlines.induct)
  case (1 s)
  show ?case
  proof (cases "s = []")
    case True
    then show ?thesis by (simp add: getlines.simps)
  next
    case False
    show ?thesis
    proof (cases "dropWhile (\<lambda>c. c \<noteq> CHR 0x0A) s")
      case Nil
      with False show ?thesis
        by (subst getlines.simps) (cases s; simp)
    next
      case (Cons c rest)
      have "length (c # rest) \<le> length s"
        unfolding Cons [symmetric] by (rule length_dropWhile_le)
      moreover have "length (getlines rest) \<le> length rest"
        using False Cons by (rule "1.IH")
      ultimately show ?thesis
        using False Cons by (subst getlines.simps) simp
    qed
  qed
qed

lemma length_accepted_keys: "length (accepted_keys lines) \<le> length lines"
  by (simp add: accepted_keys_def map_filter_def)

lemma card_accepted_keys: "card (set (accepted_keys (getlines s))) \<le> length s"
  by (meson card_length le_trans length_accepted_keys length_getlines)

lemma accepted_keys_none:
  "list_all (\<lambda>line. line = [] \<or> parseIPv6 (strip_cr line) = None) lines \<Longrightarrow>
   accepted_keys lines = []"
  by (induction lines) (auto simp: accepted_keys_def List.map_filter_simps)

lemma decimal_small: "decimal 0 = ''0''" "decimal (Suc (Suc 0)) = ''2''"
  by code_simp+

lemma main_total:
  assumes "argc env = 3" and "input_file env = Some content"
    and "\<forall>b<NUM_BUCKETS. can_create_temp env b"
  shows "main env =
    (if can_write_output env
     then \<lparr> exit_status = 0, diagnostics = [],
            output_file = Some (decimal (unat (word_of_nat (card (set (accepted_keys (getlines content)))) :: 64 word))
                                @ [CHR 0x0A]) \<rparr>
     else \<lparr> exit_status = 0, diagnostics = [''Error: Could not write output file.''],
            output_file = None \<rparr>)"
  using assms
  by (simp add: main_def openAll_ok ingest_route reduce_all_total Let_def)

lemma decimal_one: "decimal (Suc 0) = ''1''"
  by code_simp

subsection \<open>Keys and addresses\<close>

text \<open>
  Each group can be read back from the packed key, so two addresses with the same key
  are the same address.
\<close>

lemma pack_inj:
  assumes "length ps = 8" "length qs = 8" "pack ps = pack qs"
  shows "ps = qs"
proof (rule nth_equalityI)
  show "length ps = length qs" using assms by simp
  fix i assume "i < length ps"
  then have "i \<in> {0, 1, 2, 3, 4, 5, 6, 7}"
    using assms(1) by auto
  then show "ps ! i = qs ! i"
    using pack_group0 [of ps] pack_group1 [of ps] pack_group2 [of ps] pack_group3 [of ps]
      pack_group4 [of ps] pack_group5 [of ps] pack_group6 [of ps] pack_group7 [of ps]
      pack_group0 [of qs] pack_group1 [of qs] pack_group2 [of qs] pack_group3 [of qs]
      pack_group4 [of qs] pack_group5 [of qs] pack_group6 [of qs] pack_group7 [of qs]
    unfolding assms(3) by auto
qed

lemma hex_value_snoc: "hex_value (ds @ [c]) = 16 * hex_value ds + nat (hexDigitToInt c)"
  by (simp add: hex_value_def)

lemma hex_value_bound: "list_all is_hex ds \<Longrightarrow> hex_value ds < 16 ^ length ds"
proof (induction ds rule: rev_induct)
  case Nil
  then show ?case by (simp add: hex_value_def)
next
  case (snoc c ds)
  then have "hex_value ds < 16 ^ length ds" and "nat (hexDigitToInt c) < 16"
    using hexDigit_range [of c] by auto
  then have "16 * hex_value ds + nat (hexDigitToInt c) < 16 * 16 ^ length ds"
    by linarith
  then show ?case by (simp add: hex_value_snoc)
qed

lemma wf_group_bound: "wf_group g \<Longrightarrow> hex_value g < 2 ^ 16"
proof -
  assume w: "wf_group g"
  then have "hex_value g < 16 ^ length g"
    by (intro hex_value_bound) (simp add: wf_group_def)
  also have "(16::nat) ^ length g \<le> 16 ^ 4"
    using w by (intro power_increasing) (simp_all add: wf_group_def)
  finally show ?thesis by simp
qed

lemma groups_of_ok: "well_formed s \<Longrightarrow> groups_ok (groups_of s)"
  using wf_group_bound by (cases s) (auto simp: groups_ok_def list_all_iff)

lemma key_of_groups_inj:
  assumes "groups_ok gs" "groups_ok hs" "key_of_groups gs = key_of_groups hs"
  shows "gs = hs"
proof -
  have "map word_of_nat gs = (map word_of_nat hs :: 16 word list)"
    using assms by (intro pack_inj) (simp_all add: key_of_groups_def groups_ok_def)
  then have "map (unat :: 16 word \<Rightarrow> nat) (map word_of_nat gs) = map unat (map word_of_nat hs :: 16 word list)"
    by simp
  moreover have "map (unat :: 16 word \<Rightarrow> nat) (map word_of_nat xs) = xs" if "groups_ok xs" for xs
    using that by (auto simp: groups_ok_def list_all_iff unat_of_nat intro!: map_idI)
  ultimately show ?thesis
    using assms(1,2) by simp
qed

text \<open>
  A well-formed text form does not end in a carriage return, so taking one off at the end
  of the line leaves it, or gives it back when one had been put after it.  In a file
  whose lines are all in order, the accepted keys are the keys of its addresses, and
  there are as many distinct keys as distinct addresses.
\<close>

lemma hex_not_cr: "is_hex c \<Longrightarrow> c \<noteq> CHR 0x0D"
  by (auto simp: is_hex_def hexDigitToInt_def)

lemma last_wf_group:
  assumes "wf_group g"
  shows "g \<noteq> [] \<and> last g \<noteq> CHR 0x0D"
proof -
  from assms have ne: "g \<noteq> []" and "\<forall>c\<in>set g. is_hex c"
    by (simp_all add: wf_group_def list_all_iff)
  then have "is_hex (last g)"
    by simp
  from hex_not_cr [OF this] ne show ?thesis
    by simp
qed

lemma last_join_colon:
  "gs \<noteq> [] \<Longrightarrow> list_all wf_group gs \<Longrightarrow>
   join_colon gs \<noteq> [] \<and> last (join_colon gs) \<noteq> CHR 0x0D"
proof (induction gs rule: join_colon.induct)
  case 1
  then show ?case by simp
next
  case (2 g)
  then show ?case using last_wf_group [of g] by simp
next
  case (3 g v va)
  then show ?case by simp
qed

lemma last_render:
  assumes "well_formed s"
  shows "render s \<noteq> [] \<and> last (render s) \<noteq> CHR 0x0D"
proof (cases s)
  case (Full gs)
  with assms have "gs \<noteq> []" "list_all wf_group gs" by auto
  from last_join_colon [OF this] show ?thesis using Full by simp
next
  case (Compressed pre post)
  show ?thesis
  proof (cases "post = []")
    case True
    then show ?thesis using Compressed by simp
  next
    case False
    moreover have "list_all wf_group post" using assms Compressed by simp
    ultimately have "join_colon post \<noteq> [] \<and> last (join_colon post) \<noteq> CHR 0x0D"
      by (rule last_join_colon)
    then show ?thesis using Compressed by simp
  qed
qed

lemma strip_cr_render:
  assumes "well_formed s"
  shows "strip_cr (render s) = render s" and "strip_cr (render s @ [CHR 0x0D]) = render s"
  using last_render [OF assms] by (simp_all add: strip_cr_def)

lemma accepted_keys_entries:
  "list_all entry_ok es \<Longrightarrow>
   accepted_keys (map line_of es) = map key_of_groups (addresses es)"
proof (induction es)
  case Nil
  then show ?case by (simp add: accepted_keys_def addresses_def List.map_filter_simps)
next
  case (Cons e es)
  then have ih: "accepted_keys (map line_of es) = map key_of_groups (addresses es)"
    by simp
  show ?case
  proof (cases e)
    case (Address s)
    with Cons.prems have w: "well_formed s" by simp
    have "accepted_keys (map line_of (e # es))
        = key_of_groups (groups_of s) # accepted_keys (map line_of es)"
      using last_render [OF w] strip_cr_render(1) [OF w] parse_well_formed [OF w] Address
      by (simp add: accepted_keys_def List.map_filter_simps)
    with ih Address show ?thesis
      by (simp add: addresses_def List.map_filter_simps)
  next
    case (Address_CR s)
    with Cons.prems have w: "well_formed s" by simp
    have "accepted_keys (map line_of (e # es))
        = key_of_groups (groups_of s) # accepted_keys (map line_of es)"
      using strip_cr_render(2) [OF w] parse_well_formed [OF w] Address_CR
      by (simp add: accepted_keys_def List.map_filter_simps)
    with ih Address_CR show ?thesis
      by (simp add: addresses_def List.map_filter_simps)
  next
    case (Other l)
    with Cons.prems have "l = [] \<or> parseIPv6 (strip_cr l) = None" by simp
    then have "accepted_keys (map line_of (e # es)) = accepted_keys (map line_of es)"
      using Other by (auto simp: accepted_keys_def List.map_filter_simps)
    with ih Other show ?thesis
      by (simp add: addresses_def List.map_filter_simps)
  qed
qed

lemma addresses_ok: "list_all entry_ok es \<Longrightarrow> list_all groups_ok (addresses es)"
proof (induction es)
  case Nil
  then show ?case by (simp add: addresses_def List.map_filter_simps)
next
  case (Cons e es)
  then show ?case
    by (cases e) (simp_all add: addresses_def List.map_filter_simps groups_of_ok)
qed

lemma card_keys_entries:
  assumes "list_all entry_ok es"
  shows "card (set (accepted_keys (map line_of es))) = card (set (addresses es))"
proof -
  have "inj_on key_of_groups (set (addresses es))"
    using addresses_ok [OF assms]
    by (auto simp: inj_on_def list_all_iff intro: key_of_groups_inj)
  then have "card (key_of_groups ` set (addresses es)) = card (set (addresses es))"
    by (rule card_image)
  then show ?thesis
    by (simp add: accepted_keys_entries [OF assms])
qed

text \<open>
  A line of nine groups is not a text form of an address: it has eight colons, a text
  form with all groups written out has seven, and any other text form has two colons
  side by side.
\<close>

lemma colons_append [simp]: "colons (xs @ ys) = colons xs + colons ys"
  by (simp add: colons_def)

lemma colons_group: "wf_group g \<Longrightarrow> colons g = 0"
  by (auto simp: wf_group_def colons_def list_all_iff filter_empty_conv)

lemma colons_join:
  "list_all wf_group gs \<Longrightarrow> colons (join_colon gs) = length gs - 1"
proof (induction gs rule: join_colon.induct)
  case 1
  then show ?case by (simp add: colons_def)
next
  case (2 g)
  then show ?case by (simp add: colons_group)
next
  case (3 g v va)
  then show ?case by (simp add: colons_group) (simp add: colons_def)
qed

lemma has_marker_append: "has_marker (xs @ CHR '':'' # CHR '':'' # ys)"
proof (induction xs)
  case Nil
  then show ?case by simp
next
  case (Cons c xs)
  then show ?case by (cases "xs @ CHR '':'' # CHR '':'' # ys") auto
qed

lemma nine_groups_is_no_text_form:
  "\<not> (\<exists>s. well_formed s \<and> render s = ''1:2:3:4:5:6:7:8:9'')"
proof
  assume "\<exists>s. well_formed s \<and> render s = ''1:2:3:4:5:6:7:8:9''"
  then obtain s where w: "well_formed s" and r: "render s = ''1:2:3:4:5:6:7:8:9''"
    by blast
  show False
  proof (cases s)
    case (Full gs)
    with w have "colons (render s) = 7"
      by (simp add: colons_join)
    moreover have "colons ''1:2:3:4:5:6:7:8:9'' = 8"
      by (simp add: colons_def)
    ultimately show False using r by simp
  next
    case (Compressed pre post)
    then have "has_marker (render s)"
      using has_marker_append [of "join_colon pre" "join_colon post"] by simp
    moreover have "\<not> has_marker ''1:2:3:4:5:6:7:8:9''"
      by simp
    ultimately show False using r by simp
  qed
qed

section \<open>Claims about the pipeline\<close>

text \<open>
  Claim C3.  Whatever the lines of the input, the numbers of distinct keys that the
  second phase finds in the 256 partition files add up to the number of distinct keys
  among the accepted lines.  The file of partition \<open>b\<close> holds exactly the accepted keys
  whose high half has \<open>b\<close> as its top eight bits: the partition of a key is a function of
  the key, equal keys are in one partition, and two partitions share no key.
\<close>

theorem partition_counts_add_up:
  "(\<Sum>b\<leftarrow>[0 ..< NUM_BUCKETS]. length (std_unique (std_sort (streams (partitioned lines) b))))
     = card (set (accepted_keys lines))
   \<and> (\<forall>b<NUM_BUCKETS. set (streams (partitioned lines) b)
          = {k \<in> set (accepted_keys lines). unat (hi k) div 2 ^ 56 = b})
   \<and> (\<forall>b<NUM_BUCKETS. \<forall>b'<NUM_BUCKETS. b \<noteq> b' \<longrightarrow>
          set (streams (partitioned lines) b) \<inter> set (streams (partitioned lines) b') = {})"
proof -
  have "map (\<lambda>b. length (std_unique (std_sort (streams (partitioned lines) b)))) [0 ..< NUM_BUCKETS]
      = map (\<lambda>b. card (set (filter (\<lambda>k. unat (bucketIdx k) = b) (accepted_keys lines)))) [0 ..< NUM_BUCKETS]"
    by (intro map_cong refl) (simp add: count_unique streams_partitioned)
  then have "(\<Sum>b\<leftarrow>[0 ..< NUM_BUCKETS]. length (std_unique (std_sort (streams (partitioned lines) b))))
     = card (set (accepted_keys lines))"
    by (simp only: fibres_card)
  moreover have s: "\<forall>b<NUM_BUCKETS. set (streams (partitioned lines) b)
          = {k \<in> set (accepted_keys lines). unat (hi k) div 2 ^ 56 = b}"
    by (simp add: streams_partitioned bucketIdx_top_byte)
  moreover have "\<forall>b<NUM_BUCKETS. \<forall>b'<NUM_BUCKETS. b \<noteq> b' \<longrightarrow>
          set (streams (partitioned lines) b) \<inter> set (streams (partitioned lines) b') = {}"
    using s by auto
  ultimately show ?thesis by blast
qed

theorem partition_counts_add_up_witness:
  "(\<Sum>b\<leftarrow>[0 ..< NUM_BUCKETS].
      length (std_unique (std_sort (streams (partitioned [''::1'', ''0:0:0:0:0:0:0:1'', ''fe80::1'']) b)))) = 2
   \<and> set (streams (partitioned [''::1'', ''0:0:0:0:0:0:0:1'', ''fe80::1'']) 0) = {\<lparr> hi = 0, lo = 1 \<rparr>}
   \<and> set (streams (partitioned [''::1'', ''0:0:0:0:0:0:0:1'', ''fe80::1'']) 254)
        = {\<lparr> hi = 0xfe80000000000000, lo = 1 \<rparr>}"
proof -
  have k: "accepted_keys [''::1'', ''0:0:0:0:0:0:0:1'', ''fe80::1'']
      = [\<lparr> hi = 0, lo = 1 \<rparr>, \<lparr> hi = 0, lo = 1 \<rparr>, \<lparr> hi = 0xfe80000000000000, lo = 1 \<rparr>]"
    by code_simp
  have d: "unat (0xfe80000000000000 :: 64 word) div 2 ^ 56 = 254"
    by simp
  note t = partition_counts_add_up [of "[''::1'', ''0:0:0:0:0:0:0:1'', ''fe80::1'']"]
  from t have "(\<Sum>b\<leftarrow>[0 ..< NUM_BUCKETS].
      length (std_unique (std_sort (streams (partitioned [''::1'', ''0:0:0:0:0:0:0:1'', ''fe80::1'']) b)))) = 2"
    by (simp add: k)
  moreover from t have "set (streams (partitioned [''::1'', ''0:0:0:0:0:0:0:1'', ''fe80::1'']) 0) = {\<lparr> hi = 0, lo = 1 \<rparr>}"
    by (auto simp: k d NUM_BUCKETS_def)
  moreover from t have "set (streams (partitioned [''::1'', ''0:0:0:0:0:0:0:1'', ''fe80::1'']) 254)
        = {\<lparr> hi = 0xfe80000000000000, lo = 1 \<rparr>}"
    by (auto simp: k d NUM_BUCKETS_def)
  ultimately show ?thesis by blast
qed

text \<open>
  Claim C8.  A partition file that is there and empty adds nothing to the counter, its
  contents are not read, and it is removed.  A partition file that is missing or cannot
  be opened adds nothing either and is no error: the state is left as it is, and the
  other partitions are counted as if the file were there and empty.  Over all
  partitions the counter grows by the numbers of distinct keys of the files that are
  there.
\<close>

theorem empty_or_missing_partition:
  "(files st b = Some [] \<longrightarrow>
      total_unique_count (processBucket b st) = total_unique_count st \<and>
      contents_read (processBucket b st) = contents_read st \<and>
      files (processBucket b st) = (files st)(b := None))
   \<and> (files st b = None \<longrightarrow> processBucket b st = st)
   \<and> total_unique_count (reduce_all st)
       = total_unique_count st +
         word_of_nat (\<Sum>b\<leftarrow>[0 ..< NUM_BUCKETS].
                        case files st b of None \<Rightarrow> 0 | Some keys \<Rightarrow> card (set keys))"
proof -
  have "total_unique_count (reduce_all st)
       = total_unique_count st +
         word_of_nat (\<Sum>b\<leftarrow>[0 ..< NUM_BUCKETS]. bucket_count (files st b))"
    unfolding reduce_all_def by (rule reduce_total) simp
  then show ?thesis
    by (simp add: processBucket_def bucket_count_def)
qed

theorem empty_or_missing_partition_witness:
  "processBucket 3 \<lparr> files = (\<lambda>b. if b = 3 then Some [] else None), total_unique_count = 5,
                     contents_read = [] \<rparr>
     = \<lparr> files = (\<lambda>b. None), total_unique_count = 5, contents_read = [] \<rparr> \<and>
   processBucket 4 \<lparr> files = (\<lambda>b. if b = 3 then Some [] else None), total_unique_count = 5,
                     contents_read = [] \<rparr>
     = \<lparr> files = (\<lambda>b. if b = 3 then Some [] else None), total_unique_count = 5,
         contents_read = [] \<rparr>"
proof -
  let ?st = "\<lparr> files = (\<lambda>b. if b = 3 then Some [] else None), total_unique_count = 5,
                     contents_read = [] \<rparr> :: reducer"
  from empty_or_missing_partition [of ?st 3]
  have "total_unique_count (processBucket 3 ?st) = 5" "contents_read (processBucket 3 ?st) = []"
    "files (processBucket 3 ?st) = (\<lambda>b. None)"
    by auto
  then have "processBucket 3 ?st = \<lparr> files = (\<lambda>b. None), total_unique_count = 5, contents_read = [] \<rparr>"
    by (cases "processBucket 3 ?st") simp
  moreover from empty_or_missing_partition [of ?st 4] have "processBucket 4 ?st = ?st"
    by simp
  ultimately show ?thesis by simp
qed

text \<open>
  As claim C1 is stated, a file of malformed lines gives the count \<open>0\<close>.  The line
  \<^verbatim>\<open>1:2:3:4:5:6:7:8:9\<close> is not a text form of an address
  (\<open>nine_groups_is_no_text_form\<close>), but the parser accepts it, as it accepts other
  lines that go on after the eighth group or after white space.  A file with this one
  line gives the count \<open>1\<close>.
\<close>

theorem malformed_line_is_counted_counterexample:
  "output_file (main \<lparr> argc = 3, program_name = ''count_unique_ipv6'',
       input_file = Some ''1:2:3:4:5:6:7:8:9\<newline>'',
       can_create_temp = (\<lambda>b. True), can_write_output = True \<rparr>) = Some ''1\<newline>''"
proof -
  have k: "accepted_keys (getlines ''1:2:3:4:5:6:7:8:9\<newline>'')
      = [\<lparr> hi = 0x0001000200030004, lo = 0x0005000600070008 \<rparr>]"
    by code_simp
  show ?thesis
    using main_total [of "\<lparr> argc = 3, program_name = ''count_unique_ipv6'',
       input_file = Some ''1:2:3:4:5:6:7:8:9\<newline>'',
       can_create_temp = (\<lambda>b. True), can_write_output = True \<rparr>" "''1:2:3:4:5:6:7:8:9\<newline>''"]
    by (simp add: k decimal_one)
qed

text \<open>
  Claim C1, as the code has it.  \<^verbatim>\<open>main\<close> counts the lines that are not empty and that
  \<^verbatim>\<open>parseIPv6\<close> accepts, by their keys.  When the process is called with two arguments,
  the input can be opened, the temporary files can be created and the output can be
  written, the output file holds the number of distinct keys of the accepted lines in
  decimal digits, and a newline.  The counter has 64 bits; an input of fewer than
  \<open>2\<^sup>6\<^sup>4\<close> characters cannot make it wrap around.  In particular the output is \<open>0\<close>
  when no line is accepted, as for the empty file and for a file of lines that are all
  rejected, and it is \<open>N\<close> when the accepted lines spell \<open>N\<close> distinct keys, however
  often each of them is repeated.  When every line of the file is the well-formed text
  form of an address, with or without a carriage return after it, or is empty or
  rejected, the output is the exact number of distinct addresses among the lines.
\<close>

theorem main_writes_distinct_count:
  assumes "argc env = 3" and "input_file env = Some content"
    and "\<forall>b<NUM_BUCKETS. can_create_temp env b" and "can_write_output env"
    and "length content < 2 ^ 64"
  shows "output_file (main env)
           = Some (decimal (card (set (accepted_keys (getlines content)))) @ [CHR 0x0A])
         \<and> (list_all (\<lambda>line. line = [] \<or> parseIPv6 (strip_cr line) = None) (getlines content)
              \<longrightarrow> output_file (main env) = Some (''0'' @ [CHR 0x0A]))
         \<and> (\<forall>ks. distinct ks \<and> set (accepted_keys (getlines content)) = set ks
              \<longrightarrow> output_file (main env) = Some (decimal (length ks) @ [CHR 0x0A]))
         \<and> (\<forall>es. list_all entry_ok es \<and> getlines content = map line_of es
              \<longrightarrow> output_file (main env) = Some (decimal (card (set (addresses es))) @ [CHR 0x0A]))"
proof -
  let ?n = "card (set (accepted_keys (getlines content)))"
  have "?n \<le> length content" by (rule card_accepted_keys)
  with assms(5) have "?n < 2 ^ 64" by simp
  then have "unat (word_of_nat ?n :: 64 word) = ?n"
    by (simp add: unat_of_nat)
  with main_total [OF assms(1-3)] assms(4)
  have out: "output_file (main env) = Some (decimal ?n @ [CHR 0x0A])"
    by simp
  have "accepted_keys (getlines content) = []"
    if "list_all (\<lambda>line. line = [] \<or> parseIPv6 (strip_cr line) = None) (getlines content)"
    using that by (rule accepted_keys_none)
  then have zero: "list_all (\<lambda>line. line = [] \<or> parseIPv6 (strip_cr line) = None) (getlines content)
      \<longrightarrow> output_file (main env) = Some (''0'' @ [CHR 0x0A])"
    using out by (auto simp: decimal_small)
  have rep: "\<forall>ks. distinct ks \<and> set (accepted_keys (getlines content)) = set ks
              \<longrightarrow> output_file (main env) = Some (decimal (length ks) @ [CHR 0x0A])"
    using out by (auto simp: distinct_card)
  have "\<forall>es. list_all entry_ok es \<and> getlines content = map line_of es
              \<longrightarrow> output_file (main env) = Some (decimal (card (set (addresses es))) @ [CHR 0x0A])"
    using out card_keys_entries by auto
  with out zero rep show ?thesis by blast
qed

theorem main_writes_distinct_count_witness:
  "output_file (main \<lparr> argc = 3, program_name = ''count_unique_ipv6'',
       input_file = Some ''::1\<newline>::1\<newline>fe80::1\<newline>not-an-ip\<newline>\<newline>'',
       can_create_temp = (\<lambda>b. True), can_write_output = True \<rparr>) = Some ''2\<newline>'' \<and>
   output_file (main \<lparr> argc = 3, program_name = ''count_unique_ipv6'',
       input_file = Some [],
       can_create_temp = (\<lambda>b. True), can_write_output = True \<rparr>) = Some ''0\<newline>'' \<and>
   output_file (main \<lparr> argc = 3, program_name = ''count_unique_ipv6'',
       input_file = Some ''not-an-ip\<newline>1:2:3\<newline>:1\<newline>'',
       can_create_temp = (\<lambda>b. True), can_write_output = True \<rparr>) = Some ''0\<newline>'' \<and>
   list_all entry_ok [Address_CR (Compressed [''2001'', ''db8''] [''1'']),
       Address (Full [''2001'', ''0DB8'', ''0'', ''0'', ''0'', ''0'', ''0'', ''0001'']), Other ''::x''] \<and>
   getlines (''2001:db8::1'' @ [CHR 0x0D] @ ''\<newline>2001:0DB8:0:0:0:0:0:0001\<newline>::x'')
     = map line_of [Address_CR (Compressed [''2001'', ''db8''] [''1'']),
       Address (Full [''2001'', ''0DB8'', ''0'', ''0'', ''0'', ''0'', ''0'', ''0001'']), Other ''::x''] \<and>
   output_file (main \<lparr> argc = 3, program_name = ''count_unique_ipv6'',
       input_file = Some (''2001:db8::1'' @ [CHR 0x0D] @ ''\<newline>2001:0DB8:0:0:0:0:0:0001\<newline>::x''),
       can_create_temp = (\<lambda>b. True), can_write_output = True \<rparr>) = Some ''1\<newline>''"
proof -
  have k1: "accepted_keys (getlines ''::1\<newline>::1\<newline>fe80::1\<newline>not-an-ip\<newline>\<newline>'')
      = [\<lparr> hi = 0, lo = 1 \<rparr>, \<lparr> hi = 0, lo = 1 \<rparr>, \<lparr> hi = 0xfe80000000000000, lo = 1 \<rparr>]"
    by code_simp
  have k2: "accepted_keys (getlines []) = []"
    by code_simp
  have k3: "accepted_keys (getlines ''not-an-ip\<newline>1:2:3\<newline>:1\<newline>'') = []"
    by code_simp
  let ?env = "\<lambda>c. \<lparr> argc = 3, program_name = ''count_unique_ipv6'', input_file = Some c,
       can_create_temp = (\<lambda>b. True), can_write_output = True \<rparr>"
  let ?es = "[Address_CR (Compressed [''2001'', ''db8''] [''1'']),
       Address (Full [''2001'', ''0DB8'', ''0'', ''0'', ''0'', ''0'', ''0'', ''0001'']), Other ''::x'']"
  let ?c = "''2001:db8::1'' @ [CHR 0x0D] @ ''\<newline>2001:0DB8:0:0:0:0:0:0001\<newline>::x''"
  have e1: "list_all entry_ok ?es"
    by code_simp
  have e2: "getlines ?c = map line_of ?es"
    by code_simp
  have e3: "addresses ?es = [[0x2001, 0xdb8, 0, 0, 0, 0, 0, 1], [0x2001, 0xdb8, 0, 0, 0, 0, 0, 1]]"
    by code_simp
  have a: "output_file (main (?env ''::1\<newline>::1\<newline>fe80::1\<newline>not-an-ip\<newline>\<newline>'')) = Some ''2\<newline>''"
    using main_writes_distinct_count [of "?env ''::1\<newline>::1\<newline>fe80::1\<newline>not-an-ip\<newline>\<newline>''"
        "''::1\<newline>::1\<newline>fe80::1\<newline>not-an-ip\<newline>\<newline>''"]
    by (simp add: k1 decimal_small)
  have b: "output_file (main (?env [])) = Some ''0\<newline>''"
    using main_writes_distinct_count [of "?env []" "[]"]
    by (simp add: k2 decimal_small)
  have c: "output_file (main (?env ''not-an-ip\<newline>1:2:3\<newline>:1\<newline>'')) = Some ''0\<newline>''"
    using main_writes_distinct_count [of "?env ''not-an-ip\<newline>1:2:3\<newline>:1\<newline>''"
       "''not-an-ip\<newline>1:2:3\<newline>:1\<newline>''"]
    by (simp add: k3 decimal_small)
  have h: "argc (?env ?c) = 3" "input_file (?env ?c) = Some ?c"
    "\<forall>b<NUM_BUCKETS. can_create_temp (?env ?c) b" "can_write_output (?env ?c)"
    "length ?c < 2 ^ 64"
    by simp_all
  note t = main_writes_distinct_count [OF h]
  from t [THEN conjunct2, THEN conjunct2, THEN conjunct2, THEN spec, of ?es, THEN mp] e1 e2
  have "output_file (main (?env ?c)) = Some (decimal (card (set (addresses ?es))) @ [CHR 0x0A])"
    by blast
  then have d: "output_file (main (?env ?c)) = Some ''1\<newline>''"
    unfolding e3 by (simp add: decimal_one)
  from a b c d e1 e2 show ?thesis
    by blast
qed

text \<open>
  Claim C7.  The exit status is 1, and no output is written, when the input cannot be
  opened or one of the temporary files cannot be created (and also when the process is
  not called with two arguments).  Otherwise the exit status is 0, whether or not the
  output file can be written: when it cannot, the process writes one line to the
  standard error stream and still ends with status 0.
\<close>

theorem exit_status_of_main:
  "(argc env \<noteq> 3 \<or> input_file env = None \<or> (\<exists>b<NUM_BUCKETS. \<not> can_create_temp env b)
      \<longrightarrow> exit_status (main env) = 1 \<and> output_file (main env) = None)
   \<and> (argc env = 3 \<and> input_file env \<noteq> None \<and> (\<forall>b<NUM_BUCKETS. can_create_temp env b)
      \<longrightarrow> exit_status (main env) = 0 \<and>
          (\<not> can_write_output env \<longrightarrow>
             output_file (main env) = None \<and>
             diagnostics (main env) = [''Error: Could not write output file.'']))"
proof -
  have "exit_status (main env) = 1 \<and> output_file (main env) = None"
    if "argc env \<noteq> 3 \<or> input_file env = None \<or> (\<exists>b<NUM_BUCKETS. \<not> can_create_temp env b)"
  proof (cases "argc env \<noteq> 3 \<or> input_file env = None")
    case True
    then show ?thesis by (auto simp: main_def)
  next
    case False
    with that obtain b where "b < NUM_BUCKETS" "\<not> can_create_temp env b" by blast
    from openAll_fail [of b "can_create_temp env", OF this] obtain i where "openAll (can_create_temp env) = Inl i" ..
    with False show ?thesis by (auto simp: main_def)
  qed
  moreover have "exit_status (main env) = 0 \<and>
          (\<not> can_write_output env \<longrightarrow>
             output_file (main env) = None \<and>
             diagnostics (main env) = [''Error: Could not write output file.''])"
    if "argc env = 3 \<and> input_file env \<noteq> None \<and> (\<forall>b<NUM_BUCKETS. can_create_temp env b)"
  proof -
    from that obtain content where "input_file env = Some content" by auto
    with that main_total [of env content] show ?thesis by simp
  qed
  ultimately show ?thesis by blast
qed

theorem exit_status_of_main_witness:
  "exit_status (main \<lparr> argc = 3, program_name = ''count'', input_file = None,
       can_create_temp = (\<lambda>b. True), can_write_output = True \<rparr>) = 1 \<and>
   exit_status (main \<lparr> argc = 3, program_name = ''count'', input_file = Some ''::1'',
       can_create_temp = (\<lambda>b. b \<noteq> 200), can_write_output = True \<rparr>) = 1 \<and>
   exit_status (main \<lparr> argc = 3, program_name = ''count'', input_file = Some ''::1'',
       can_create_temp = (\<lambda>b. True), can_write_output = False \<rparr>) = 0 \<and>
   diagnostics (main \<lparr> argc = 3, program_name = ''count'', input_file = Some ''::1'',
       can_create_temp = (\<lambda>b. True), can_write_output = False \<rparr>)
     = [''Error: Could not write output file.'']"
  using exit_status_of_main [of "\<lparr> argc = 3, program_name = ''count'', input_file = None,
       can_create_temp = (\<lambda>b. True), can_write_output = True \<rparr>"]
    exit_status_of_main [of "\<lparr> argc = 3, program_name = ''count'', input_file = Some ''::1'',
       can_create_temp = (\<lambda>b. b \<noteq> 200), can_write_output = True \<rparr>"]
    exit_status_of_main [of "\<lparr> argc = 3, program_name = ''count'', input_file = Some ''::1'',
       can_create_temp = (\<lambda>b. True), can_write_output = False \<rparr>"]
  by (simp add: NUM_BUCKETS_def)

section \<open>Properties of the worker pool\<close>

text \<open>
  Both kinds of step keep the invariants; so they hold after every schedule, in
  whatever order the threads take their steps.
\<close>

lemma pool_invD:
  assumes "pool_inv n p"
  shows "length (workers p) = n"
    and "distinct (processed p)"
    and "\<And>t b. t < n \<Longrightarrow> workers p ! t = Holding b \<Longrightarrow> b \<notin> set (processed p)"
    and "\<And>t b. t < n \<Longrightarrow> workers p ! t = Holding b \<Longrightarrow> b < currentBucket p"
    and "\<And>t b. t < n \<Longrightarrow> workers p ! t = Holding b \<Longrightarrow> b < NUM_BUCKETS"
    and "\<And>t t' b. t < n \<Longrightarrow> t' < n \<Longrightarrow> workers p ! t = Holding b \<Longrightarrow> workers p ! t' = Holding b \<Longrightarrow> t' = t"
    and "\<And>b. b \<in> set (processed p) \<Longrightarrow> b < currentBucket p"
    and "\<And>b. b \<in> set (processed p) \<Longrightarrow> b < NUM_BUCKETS"
    and "\<And>b. b < currentBucket p \<Longrightarrow> b < NUM_BUCKETS \<Longrightarrow>
           b \<in> set (processed p) \<or> (\<exists>t<n. workers p ! t = Holding b)"
    and "\<And>t. t < n \<Longrightarrow> workers p ! t = Left \<Longrightarrow> NUM_BUCKETS \<le> currentBucket p"
  using assms unfolding pool_inv_def by blast+

lemma pool_inv_start: "pool_inv n (start n st)"
  by (auto simp: pool_inv_def start_def)

lemma pool_inv_claim:
  assumes inv: "pool_inv n p" and t: "t < length (workers p)" "workers p ! t = Claiming"
    and q: "q = p\<lparr> currentBucket := currentBucket p + 1,
                workers := (workers p)[t := (if currentBucket p \<ge> NUM_BUCKETS then Left
                                             else Holding (currentBucket p))] \<rparr>"
  shows "pool_inv n q"
proof -
  note I = pool_invD [OF inv]
  have tn: "t < n" using t I(1) by simp
  have c: "currentBucket q = currentBucket p + 1" and pr: "processed q = processed p"
    and len: "length (workers q) = n"
    using q I(1) by simp_all
  have wt: "workers q ! t = (if currentBucket p \<ge> NUM_BUCKETS then Left else Holding (currentBucket p))"
    using q t by simp
  have wo: "workers q ! t1 = workers p ! t1" if "t1 \<noteq> t" for t1
    using q that by simp
  have hold: "(t1 = t \<and> b = currentBucket p \<and> b < NUM_BUCKETS) \<or> (t1 \<noteq> t \<and> workers p ! t1 = Holding b)"
    if "workers q ! t1 = Holding b" for t1 b
  proof (cases "t1 = t")
    case True
    with that wt show ?thesis by (auto split: if_splits)
  next
    case False
    with that wo show ?thesis by simp
  qed
  show ?thesis
    unfolding pool_inv_def
  proof (intro conjI allI impI ballI)
    show "length (workers q) = n" by (rule len)
    show "distinct (processed q)" using I(2) pr by simp
  next
    fix b assume "b \<in> set (processed q)"
    then have "b \<in> set (processed p)" using pr by simp
    then show "b < currentBucket q" "b < NUM_BUCKETS"
      using I(7) [of b] I(8) [of b] c by simp_all
  next
    fix t1 b assume t1: "t1 < n" "workers q ! t1 = Holding b"
    from hold [OF t1(2)] show "b \<notin> set (processed q)"
    proof
      assume "t1 = t \<and> b = currentBucket p \<and> b < NUM_BUCKETS"
      then show ?thesis using I(7) [of b] pr by auto
    next
      assume "t1 \<noteq> t \<and> workers p ! t1 = Holding b"
      then show ?thesis using I(3) [of t1 b] t1(1) pr by simp
    qed
    from hold [OF t1(2)] show "b < currentBucket q"
      using I(4) [of t1 b] t1(1) c by auto
    from hold [OF t1(2)] show "b < NUM_BUCKETS"
      using I(5) [of t1 b] t1(1) by auto
  next
    fix t1 t2 b assume t12: "t1 < n" "t2 < n" "workers q ! t1 = Holding b" "workers q ! t2 = Holding b"
    from hold [OF t12(3)] hold [OF t12(4)] show "t2 = t1"
      using I(6) [of t1 t2 b] I(4) [of t1 b] I(4) [of t2 b] t12(1,2) by auto
  next
    fix b assume b: "b < currentBucket q" "b < NUM_BUCKETS"
    show "b \<in> set (processed q) \<or> (\<exists>t<n. workers q ! t = Holding b)"
    proof (cases "b = currentBucket p")
      case True
      then have "workers q ! t = Holding b"
        using b(2) wt by simp
      then show ?thesis using tn by blast
    next
      case False
      then have "b < currentBucket p" using b(1) c by simp
      from I(9) [OF this b(2)] show ?thesis
      proof
        assume "b \<in> set (processed p)"
        then show ?thesis using pr by simp
      next
        assume "\<exists>t<n. workers p ! t = Holding b"
        then obtain t1 where t1: "t1 < n" "workers p ! t1 = Holding b" by blast
        then have "t1 \<noteq> t" using t(2) by auto
        then have "workers q ! t1 = Holding b" using t1(2) wo by simp
        then show ?thesis using t1(1) by blast
      qed
    qed
  next
    fix t1 assume t1: "t1 < n" "workers q ! t1 = Left"
    show "NUM_BUCKETS \<le> currentBucket q"
    proof (cases "t1 = t")
      case True
      then show ?thesis using t1(2) wt c by (auto split: if_splits)
    next
      case False
      then have "workers p ! t1 = Left" using t1(2) wo by simp
      from I(10) [OF t1(1) this] show ?thesis using c by simp
    qed
  qed
qed

lemma pool_inv_process:
  assumes inv: "pool_inv n p" and t: "t < length (workers p)" "workers p ! t = Holding b"
    and q: "q = p\<lparr> workers := (workers p)[t := Claiming],
                shared := processBucket b (shared p),
                processed := processed p @ [b] \<rparr>"
  shows "pool_inv n q"
proof -
  note I = pool_invD [OF inv]
  have tn: "t < n" using t I(1) by simp
  have c: "currentBucket q = currentBucket p" and pr: "processed q = processed p @ [b]"
    and len: "length (workers q) = n"
    using q I(1) by simp_all
  have wt: "workers q ! t = Claiming"
    using q t by simp
  have wo: "workers q ! t1 = workers p ! t1" if "t1 \<noteq> t" for t1
    using q that by simp
  have keep: "t1 \<noteq> t \<and> workers p ! t1 = w" if "workers q ! t1 = w" "w \<noteq> Claiming" for t1 w
    using that wt wo by (cases "t1 = t") auto
  show ?thesis
    unfolding pool_inv_def
  proof (intro conjI allI impI ballI)
    show "length (workers q) = n" by (rule len)
    show "distinct (processed q)" using I(2) I(3) [OF tn t(2)] pr by simp
  next
    fix b' assume "b' \<in> set (processed q)"
    then have "b' \<in> set (processed p) \<or> b' = b" using pr by auto
    then show "b' < currentBucket q" "b' < NUM_BUCKETS"
      using I(7) [of b'] I(8) [of b'] I(4) [OF tn t(2)] I(5) [OF tn t(2)] c by auto
  next
    fix t1 b' assume t1: "t1 < n" "workers q ! t1 = Holding b'"
    from keep [OF t1(2)] have k: "t1 \<noteq> t" "workers p ! t1 = Holding b'" by auto
    have "b' \<noteq> b" using I(6) [OF tn t1(1) _ k(2)] t(2) k(1) by auto
    then show "b' \<notin> set (processed q)"
      using I(3) [OF t1(1) k(2)] pr by simp
    show "b' < currentBucket q" using I(4) [OF t1(1) k(2)] c by simp
    show "b' < NUM_BUCKETS" using I(5) [OF t1(1) k(2)] by simp
  next
    fix t1 t2 b' assume t12: "t1 < n" "t2 < n" "workers q ! t1 = Holding b'" "workers q ! t2 = Holding b'"
    from keep [OF t12(3)] keep [OF t12(4)] show "t2 = t1"
      using I(6) [of t1 t2 b'] t12(1,2) by auto
  next
    fix b' assume b': "b' < currentBucket q" "b' < NUM_BUCKETS"
    then have "b' < currentBucket p" using c by simp
    from I(9) [OF this b'(2)] show "b' \<in> set (processed q) \<or> (\<exists>t<n. workers q ! t = Holding b')"
    proof
      assume "b' \<in> set (processed p)"
      then show ?thesis using pr by simp
    next
      assume "\<exists>t<n. workers p ! t = Holding b'"
      then obtain t1 where t1: "t1 < n" "workers p ! t1 = Holding b'" by blast
      show ?thesis
      proof (cases "t1 = t")
        case True
        then have "b' = b" using t1(2) t(2) by simp
        then show ?thesis using pr by simp
      next
        case False
        then have "workers q ! t1 = Holding b'" using t1(2) wo by simp
        then show ?thesis using t1(1) by blast
      qed
    qed
  next
    fix t1 assume t1: "t1 < n" "workers q ! t1 = Left"
    from keep [OF t1(2)] have "workers p ! t1 = Left" by auto
    from I(10) [OF t1(1) this] show "NUM_BUCKETS \<le> currentBucket q" using c by simp
  qed
qed

lemma thread_step_cases:
  assumes "thread_step t p = Some q"
  obtains
    (claim) "t < length (workers p)" "workers p ! t = Claiming"
      "q = p\<lparr> currentBucket := currentBucket p + 1,
                workers := (workers p)[t := (if currentBucket p \<ge> NUM_BUCKETS then Left
                                             else Holding (currentBucket p))] \<rparr>"
  | (process) b where "t < length (workers p)" "workers p ! t = Holding b"
      "q = p\<lparr> workers := (workers p)[t := Claiming],
                shared := processBucket b (shared p),
                processed := processed p @ [b] \<rparr>"
  using assms by (auto simp: thread_step_def split: if_splits worker.splits)

lemma pool_inv_step:
  assumes "pool_inv n p" "thread_step t p = Some q"
  shows "pool_inv n q"
  using assms(2)
proof (cases rule: thread_step_cases)
  case claim
  then show ?thesis by (intro pool_inv_claim [OF assms(1)])
next
  case (process b)
  then show ?thesis by (intro pool_inv_process [OF assms(1)])
qed

lemma pool_inv_run: "pool_inv n p \<Longrightarrow> run ts p = Some q \<Longrightarrow> pool_inv n q"
proof (induction ts arbitrary: p)
  case Nil
  then show ?case by simp
next
  case (Cons t ts)
  from Cons.prems(2) obtain p' where s: "thread_step t p = Some p'" and r: "run ts p' = Some q"
    by (auto split: option.splits)
  from Cons.IH [OF pool_inv_step [OF Cons.prems(1) s] r] show ?case .
qed

lemma reachable_inv: "run ts (start n st) = Some p \<Longrightarrow> pool_inv n p"
  by (rule pool_inv_run [OF pool_inv_start])

lemma shared_inv_start: "shared_inv st (start n st)"
  by (simp add: shared_inv_def start_def)

lemma shared_inv_step:
  assumes "shared_inv st p" "pool_inv n p" "thread_step t p = Some q"
  shows "shared_inv st q"
  using assms(3)
proof (cases rule: thread_step_cases)
  case claim
  with assms(1) show ?thesis by (simp add: shared_inv_def)
next
  case (process b)
  from pool_invD(3) [OF assms(2), of t b] pool_invD(1) [OF assms(2)] process
  have nb: "b \<notin> set (processed p)" by simp
  from assms(1) have tot: "total_unique_count (shared p)
       = total_unique_count st + word_of_nat (\<Sum>b\<leftarrow>processed p. bucket_count (files st b))"
    and fl: "\<And>b. files (shared p) b = (if b \<in> set (processed p) then None else files st b)"
    by (simp_all add: shared_inv_def)
  have "files (shared p) b = files st b" using fl [of b] nb by simp
  then have "total_unique_count (shared q)
       = total_unique_count st + word_of_nat (\<Sum>b\<leftarrow>processed q. bucket_count (files st b))"
    using process tot by (simp add: processBucket_total)
  moreover have "files (shared q) b' = (if b' \<in> set (processed q) then None else files st b')" for b'
    using process fl [of b']
    by (cases "b' = b") (simp_all add: processBucket_own_file processBucket_files)
  ultimately show ?thesis by (simp add: shared_inv_def)
qed

lemma shared_inv_run:
  "shared_inv st p \<Longrightarrow> pool_inv n p \<Longrightarrow> run ts p = Some q \<Longrightarrow> shared_inv st q"
proof (induction ts arbitrary: p)
  case Nil
  then show ?case by simp
next
  case (Cons t ts)
  from Cons.prems(3) obtain p' where s: "thread_step t p = Some p'" and r: "run ts p' = Some q"
    by (auto split: option.splits)
  from Cons.IH [OF shared_inv_step [OF Cons.prems(1,2) s] pool_inv_step [OF Cons.prems(2) s] r]
  show ?case .
qed

lemma reachable_shared_inv: "run ts (start n st) = Some p \<Longrightarrow> shared_inv st p"
  by (rule shared_inv_run [OF shared_inv_start pool_inv_start])

lemma joined_all_processed:
  assumes "run ts (start n st) = Some p" "0 < n" "joined p"
  shows "set (processed p) = {0 ..< NUM_BUCKETS}"
proof -
  note I = pool_invD [OF reachable_inv [OF assms(1)]]
  have left: "workers p ! t = Left" if "t < n" for t
    using assms(3) that I(1) by (simp add: joined_def list_all_length)
  from I(10) [OF assms(2) left [OF assms(2)]] have full: "NUM_BUCKETS \<le> currentBucket p" .
  have "b \<in> set (processed p)" if "b < NUM_BUCKETS" for b
  proof -
    from that full have "b < currentBucket p" by simp
    from I(9) [OF this that] show ?thesis
      using left by auto
  qed
  with I(8) show ?thesis by auto
qed

text \<open>
  One schedule that ends: a single thread that claims and processes the buckets one
  after the other and then leaves its loop.
\<close>

lemma run_append:
  "run (ts @ us) p = (case run ts p of None \<Rightarrow> None | Some q \<Rightarrow> run us q)"
  by (induction ts arbitrary: p) (auto split: option.splits)

lemma one_thread_run:
  "k \<le> NUM_BUCKETS \<Longrightarrow>
   run (replicate (2 * k) 0) (start 1 st)
     = Some \<lparr> currentBucket = k, workers = [Claiming],
              shared = foldl (\<lambda>st b. processBucket b st) st [0 ..< k],
              processed = [0 ..< k] \<rparr>"
proof (induction k)
  case 0
  then show ?case by (simp add: start_def)
next
  case (Suc k)
  let ?p = "\<lparr> currentBucket = k, workers = [Claiming],
             shared = foldl (\<lambda>st b. processBucket b st) st [0 ..< k],
             processed = [0 ..< k] \<rparr>"
  have r: "run (replicate (2 * k) 0) (start 1 st) = Some ?p"
    using Suc by simp
  have two: "run [0, 0] ?p
      = Some \<lparr> currentBucket = Suc k, workers = [Claiming],
               shared = foldl (\<lambda>st b. processBucket b st) st [0 ..< Suc k],
               processed = [0 ..< Suc k] \<rparr>"
    using Suc.prems by (simp add: thread_step_def)
  have e: "2 * Suc k = 2 * k + 2"
    by simp
  have "replicate (2 * Suc k) (0::nat) = replicate (2 * k) 0 @ replicate 2 0"
    unfolding e by (rule replicate_add)
  also have "replicate 2 (0::nat) = [0, 0]"
    by (simp add: numeral_2_eq_2)
  finally show ?case
    by (simp only: run_append r option.case two)
qed

lemma one_thread_done:
  "run (replicate (2 * NUM_BUCKETS + 1) 0) (start 1 st)
     = Some \<lparr> currentBucket = NUM_BUCKETS + 1, workers = [Left],
              shared = reduce_all st, processed = [0 ..< NUM_BUCKETS] \<rparr>"
proof -
  let ?p = "\<lparr> currentBucket = NUM_BUCKETS, workers = [Claiming],
             shared = foldl (\<lambda>st b. processBucket b st) st [0 ..< NUM_BUCKETS],
             processed = [0 ..< NUM_BUCKETS] \<rparr>"
  have r: "run (replicate (2 * NUM_BUCKETS) 0) (start 1 st) = Some ?p"
    by (rule one_thread_run) simp
  have one: "run [0] ?p
      = Some \<lparr> currentBucket = NUM_BUCKETS + 1, workers = [Left],
               shared = reduce_all st, processed = [0 ..< NUM_BUCKETS] \<rparr>"
    by (simp add: thread_step_def reduce_all_def)
  have "replicate (2 * NUM_BUCKETS + 1) (0::nat) = replicate (2 * NUM_BUCKETS) 0 @ replicate 1 0"
    by (rule replicate_add)
  also have "replicate 1 (0::nat) = [0]"
    by simp
  finally show ?thesis
    by (simp only: run_append r option.case one)
qed

text \<open>A thread has a step to take as long as it has not left its loop.\<close>

lemma thread_step_None:
  "thread_step t p = None \<longleftrightarrow> \<not> t < length (workers p) \<or> workers p ! t = Left"
  by (simp add: thread_step_def split: worker.splits)

section \<open>Claims about the worker pool\<close>

text \<open>
  Claim C10.  After every schedule of one or more worker threads, that is in every
  state they can reach by any interleaving of their steps, no bucket has been
  processed twice, only buckets below
  \<^verbatim>\<open>NUM_BUCKETS\<close> have been processed, no bucket is held by two threads, and no bucket that
  a thread holds has been processed already.  When all threads have left their loops,
  each of the 256 buckets has been processed: none was skipped.  In every such state
  each thread that has not left its loop can take its next step, whatever the other
  threads have done: no order of the steps is excluded.
\<close>

theorem every_partition_claimed_once:
  assumes "run schedule (start nThreads st) = Some p" and "0 < nThreads"
  shows "distinct (processed p) \<and> set (processed p) \<subseteq> {0 ..< NUM_BUCKETS} \<and>
         (\<forall>t<nThreads. \<forall>t'<nThreads. \<forall>b.
            workers p ! t = Holding b \<and> workers p ! t' = Holding b \<longrightarrow> t' = t) \<and>
         (\<forall>t<nThreads. \<forall>b. workers p ! t = Holding b \<longrightarrow> b \<notin> set (processed p)) \<and>
         (joined p \<longrightarrow> set (processed p) = {0 ..< NUM_BUCKETS}) \<and>
         (\<forall>t<nThreads. thread_step t p = None \<longleftrightarrow> workers p ! t = Left)"
proof -
  note I = pool_invD [OF reachable_inv [OF assms(1)]]
  have "set (processed p) \<subseteq> {0 ..< NUM_BUCKETS}"
    using I(8) by auto
  moreover have "\<forall>t<nThreads. \<forall>t'<nThreads. \<forall>b.
            workers p ! t = Holding b \<and> workers p ! t' = Holding b \<longrightarrow> t' = t"
    using I(6) by blast
  moreover have "\<forall>t<nThreads. \<forall>b. workers p ! t = Holding b \<longrightarrow> b \<notin> set (processed p)"
    using I(3) by blast
  moreover have "joined p \<longrightarrow> set (processed p) = {0 ..< NUM_BUCKETS}"
    using joined_all_processed [OF assms] by blast
  moreover have "\<forall>t<nThreads. thread_step t p = None \<longleftrightarrow> workers p ! t = Left"
    using I(1) by (simp add: thread_step_None)
  ultimately show ?thesis
    using I(2) by blast
qed

text \<open>
  Three threads, over files of which one has a key twice, one is empty and most are
  not there.  After four steps two threads hold a bucket each and the third has
  processed its own and is about to claim the next.  In the whole schedule the three
  threads claim a bucket each in every round and then process them in another order,
  thread 2 first; at the end the threads 0 and 2 leave their loops while thread 1
  still holds the last bucket.
\<close>

theorem every_partition_claimed_once_witness:
  "(\<exists>q. run [0, 1, 2, 2]
          (start 3 \<lparr> files = (\<lambda>b. if b = 0 then Some [\<lparr>hi = 0, lo = 1\<rparr>, \<lparr>hi = 0, lo = 2\<rparr>, \<lparr>hi = 0, lo = 1\<rparr>]
                                   else if b = 7 then Some []
                                   else if b = 255 then Some [\<lparr>hi = 0xFF00000000000000, lo = 0\<rparr>]
                                   else None),
                      total_unique_count = 0, contents_read = [] \<rparr>) = Some q \<and>
       workers q = [Holding 0, Holding 1, Claiming] \<and> currentBucket q = 3 \<and>
       processed q = [2] \<and> thread_step 0 q \<noteq> None \<and> thread_step 2 q \<noteq> None) \<and>
   (\<exists>p. run (concat (replicate 85 [0, 1, 2, 2, 0, 1]) @ [1, 0, 2, 1, 1])
          (start 3 \<lparr> files = (\<lambda>b. if b = 0 then Some [\<lparr>hi = 0, lo = 1\<rparr>, \<lparr>hi = 0, lo = 2\<rparr>, \<lparr>hi = 0, lo = 1\<rparr>]
                                   else if b = 7 then Some []
                                   else if b = 255 then Some [\<lparr>hi = 0xFF00000000000000, lo = 0\<rparr>]
                                   else None),
                      total_unique_count = 0, contents_read = [] \<rparr>) = Some p \<and>
       workers p = [Left, Left, Left] \<and> joined p \<and>
       processed p = concat (map (\<lambda>k. [3 * k + 2, 3 * k, 3 * k + 1]) [0 ..< 85]) @ [255] \<and>
       distinct (processed p) \<and> set (processed p) = {0 ..< NUM_BUCKETS} \<and>
       total_unique_count (shared p) = 3 \<and> contents_read (shared p) = [0, 255])"
proof -
  let ?schedule = "concat (replicate 85 [0, 1, 2, 2, 0, 1]) @ [1, 0, 2, 1, 1]"
  let ?st = "\<lparr> files = (\<lambda>b. if b = 0 then Some [\<lparr>hi = 0, lo = 1\<rparr>, \<lparr>hi = 0, lo = 2\<rparr>, \<lparr>hi = 0, lo = 1\<rparr>]
                                   else if b = 7 then Some []
                                   else if b = 255 then Some [\<lparr>hi = 0xFF00000000000000, lo = 0\<rparr>]
                                   else None),
                      total_unique_count = 0, contents_read = [] \<rparr>"
  have three: "0 < (3::nat)"
    by simp
  have "case run [0, 1, 2, 2] (start 3 ?st) of None \<Rightarrow> False
    | Some q \<Rightarrow> workers q = [Holding 0, Holding 1, Claiming] \<and> currentBucket q = 3 \<and>
        processed q = [2]"
    by code_simp
  then obtain q where rq: "run [0, 1, 2, 2] (start 3 ?st) = Some q"
    and wq: "workers q = [Holding 0, Holding 1, Claiming]" "currentBucket q = 3" "processed q = [2]"
    by (cases "run [0, 1, 2, 2] (start 3 ?st)") auto
  from every_partition_claimed_once [OF rq three]
  have "\<forall>t<3. thread_step t q = None \<longleftrightarrow> workers q ! t = Left"
    by blast
  then have "thread_step 0 q = None \<longleftrightarrow> workers q ! 0 = Left"
    and "thread_step 2 q = None \<longleftrightarrow> workers q ! 2 = Left"
    by simp_all
  with wq(1) have sq: "thread_step 0 q \<noteq> None" "thread_step 2 q \<noteq> None"
    by simp_all
  have "case run ?schedule (start 3 ?st) of None \<Rightarrow> False
    | Some p \<Rightarrow> workers p = [Left, Left, Left] \<and> joined p \<and>
        processed p = concat (map (\<lambda>k. [3 * k + 2, 3 * k, 3 * k + 1]) [0 ..< 85]) @ [255] \<and>
        total_unique_count (shared p) = 3 \<and> contents_read (shared p) = [0, 255]"
    by code_simp
  then obtain p where r: "run ?schedule (start 3 ?st) = Some p"
    and w: "workers p = [Left, Left, Left]" "joined p"
      "processed p = concat (map (\<lambda>k. [3 * k + 2, 3 * k, 3 * k + 1]) [0 ..< 85]) @ [255]"
      "total_unique_count (shared p) = 3" "contents_read (shared p) = [0, 255]"
    by (cases "run ?schedule (start 3 ?st)") auto
  from every_partition_claimed_once [OF r three] w(2)
  have "distinct (processed p)" and "set (processed p) = {0 ..< NUM_BUCKETS}"
    by blast+
  with r w rq wq sq show ?thesis
    by blast
qed

text \<open>
  The count does not depend on the schedule: when all threads have left their loops the
  counter is the one that \<open>reduce_all\<close>, which \<open>main\<close> above is written with, computes.
\<close>

lemma every_schedule_same_total:
  assumes "run ts (start n st) = Some p" "0 < n" "joined p"
  shows "total_unique_count (shared p) = total_unique_count (reduce_all st)"
proof -
  note I = pool_invD [OF reachable_inv [OF assms(1)]]
  have "(\<Sum>b\<leftarrow>processed p. bucket_count (files st b))
      = (\<Sum>b\<in>set (processed p). bucket_count (files st b))"
    by (rule sum_list_distinct_conv_sum_set [OF I(2)])
  also have "\<dots> = (\<Sum>b\<in>set [0 ..< NUM_BUCKETS]. bucket_count (files st b))"
    unfolding joined_all_processed [OF assms] by simp
  also have "\<dots> = (\<Sum>b\<leftarrow>[0 ..< NUM_BUCKETS]. bucket_count (files st b))"
    by (rule sum_set_upt_conv_sum_list_nat)
  finally have "total_unique_count (shared p)
      = total_unique_count st + word_of_nat (\<Sum>b\<leftarrow>[0 ..< NUM_BUCKETS]. bucket_count (files st b))"
    using reachable_shared_inv [OF assms(1)] by (simp add: shared_inv_def)
  then show ?thesis
    by (simp add: reduce_all_def reduce_total)
qed

end
